theory Spec2Isabelle
  imports Complex_Main
begin

unbundle bit_operations_syntax

section \<open>JavaScript numbers\<close>

text \<open>
  A JavaScript number is an IEEE-754 double. The embedding keeps the five kinds of
  double the encoder distinguishes: NaN, the two infinities, negative zero, and the
  finite values, each finite value represented by the real number it denotes
  (\<open>Fin 0\<close> is positive zero). Arithmetic on finite values is exact arithmetic:
  the rounding a double operation applies to its result is not part of the model.
\<close>

datatype jsnum = NaN | PosInfinity | NegInfinity | NegZero | Fin real

text \<open>The real number a number without NaN and infinities denotes.\<close>

fun real_of_jsnum :: "jsnum \<Rightarrow> real" where
  "real_of_jsnum (Fin q) = q"
| "real_of_jsnum _ = 0"

text \<open>The relational operator \<open><\<close> on numbers: false whenever an operand is NaN.\<close>

fun js_less :: "jsnum \<Rightarrow> jsnum \<Rightarrow> bool" where
  "js_less NaN _ = False"
| "js_less _ NaN = False"
| "js_less _ NegInfinity = False"
| "js_less NegInfinity _ = True"
| "js_less PosInfinity _ = False"
| "js_less _ PosInfinity = True"
| "js_less x y = (real_of_jsnum x < real_of_jsnum y)"

text \<open>Strict equality \<open>===\<close> on numbers: NaN equals nothing, the two zeros are equal.\<close>

fun js_strict_equals :: "jsnum \<Rightarrow> jsnum \<Rightarrow> bool" where
  "js_strict_equals NaN _ = False"
| "js_strict_equals _ NaN = False"
| "js_strict_equals PosInfinity y = (y = PosInfinity)"
| "js_strict_equals NegInfinity y = (y = NegInfinity)"
| "js_strict_equals x PosInfinity = False"
| "js_strict_equals x NegInfinity = False"
| "js_strict_equals x y = (real_of_jsnum x = real_of_jsnum y)"

definition isNaN :: "jsnum \<Rightarrow> bool" where
  "isNaN v = (v = NaN)"

text \<open>
  \<open>ToInt32\<close>, the conversion every bitwise operator applies to its operands:
  truncate towards zero, reduce modulo \<open>2^32\<close>, read as two's complement. NaN and the
  infinities convert to 0.
\<close>

definition ToInt32_int :: "int \<Rightarrow> int" where
  "ToInt32_int n = (let m = n mod 2 ^ 32 in if m \<ge> 2 ^ 31 then m - 2 ^ 32 else m)"

definition trunc :: "real \<Rightarrow> int" where
  "trunc q = (if q < 0 then - \<lfloor>- q\<rfloor> else \<lfloor>q\<rfloor>)"

definition ToInt32_real :: "real \<Rightarrow> int" where
  "ToInt32_real q = ToInt32_int (trunc q)"

fun ToInt32 :: "jsnum \<Rightarrow> int" where
  "ToInt32 (Fin q) = ToInt32_real q"
| "ToInt32 _ = 0"

text \<open>\<open>Math.pow(2, e)\<close> for an integer \<open>e\<close>.\<close>

definition pow2 :: "int \<Rightarrow> real" where
  "pow2 e = 2 powi e"

text \<open>
  \<open>Math.floor(log2(a))\<close> for a positive \<open>a\<close>: the exponent \<open>e\<close> with
  \<open>2^e \<le> a < 2^(e+1)\<close>, found by halving a value from 2 upwards and doubling a
  value below 1. The encoder calls it on positive values only.
\<close>

function log2_halve :: "real \<Rightarrow> int" where
  "log2_halve a = (if 2 \<le> a then log2_halve (a / 2) + 1 else 0)"
  by pat_completeness auto
termination
proof (relation "measure (\<lambda>a. nat \<lfloor>a\<rfloor>)")
  show "wf (measure (\<lambda>a::real. nat \<lfloor>a\<rfloor>))" by simp
next
  fix a :: real
  assume a: "2 \<le> a"
  have "of_int \<lfloor>a / 2\<rfloor> \<le> a / 2" by (rule of_int_floor_le)
  then have "of_int (\<lfloor>a / 2\<rfloor> + 1) \<le> a" using a by simp
  then have "\<lfloor>a / 2\<rfloor> + 1 \<le> \<lfloor>a\<rfloor>" by (simp only: le_floor_iff)
  moreover have "0 \<le> \<lfloor>a / 2\<rfloor>" using a by simp
  ultimately have "nat \<lfloor>a / 2\<rfloor> < nat \<lfloor>a\<rfloor>" by linarith
  then show "(a / 2, a) \<in> measure (\<lambda>a. nat \<lfloor>a\<rfloor>)" by (simp only: in_measure)
qed

declare log2_halve.simps [simp del]

function log2_double :: "real \<Rightarrow> int" where
  "log2_double a = (if 0 < a \<and> a < 1 then log2_double (a * 2) - 1 else 0)"
  by pat_completeness auto
termination
proof (relation "measure (\<lambda>a. nat \<lfloor>1 / a\<rfloor>)")
  show "wf (measure (\<lambda>a::real. nat \<lfloor>1 / a\<rfloor>))" by simp
next
  fix a :: real
  assume a: "0 < a \<and> a < 1"
  define x where "x = 1 / a"
  have x: "1 \<le> x" using a by (simp add: x_def)
  have "\<lfloor>x / 2\<rfloor> + 1 \<le> \<lfloor>x\<rfloor>"
  proof (cases "2 \<le> x")
    case True
    have "of_int \<lfloor>x / 2\<rfloor> \<le> x / 2" by (rule of_int_floor_le)
    then have "of_int (\<lfloor>x / 2\<rfloor> + 1) \<le> x" using True by simp
    then show ?thesis by (simp only: le_floor_iff)
  next
    case False
    then have "\<lfloor>x / 2\<rfloor> = 0" using x by (simp add: floor_eq_iff)
    moreover have "1 \<le> \<lfloor>x\<rfloor>" using x by (simp add: le_floor_iff)
    ultimately show ?thesis by simp
  qed
  moreover have "0 \<le> \<lfloor>x / 2\<rfloor>" using x by simp
  ultimately have "nat \<lfloor>x / 2\<rfloor> < nat \<lfloor>x\<rfloor>" by linarith
  moreover have "1 / (a * 2) = x / 2" by (simp add: x_def)
  ultimately have "nat \<lfloor>1 / (a * 2)\<rfloor> < nat \<lfloor>1 / a\<rfloor>" by (simp only: x_def)
  then show "(a * 2, a) \<in> measure (\<lambda>a. nat \<lfloor>1 / a\<rfloor>)" by (simp only: in_measure)
qed

declare log2_double.simps [simp del]

definition floor_log2 :: "real \<Rightarrow> int" where
  "floor_log2 a = (if 1 \<le> a then log2_halve a else log2_double a)"


section \<open>polyfill.js: the byte array\<close>

text \<open>
  The array \<open>_bytes\<close> that the polyfills read and write is a JavaScript array. A slot
  holds the integer that was stored in it, or is empty. Reading an empty slot, or an
  index outside the array, gives \<open>undefined\<close>: NaN in arithmetic, 0 under a bitwise
  operator. An assignment at an index outside the array grows it and leaves the slots in
  between empty.
\<close>

type_synonym byte_array = "int option list"

definition js_nth :: "byte_array \<Rightarrow> nat \<Rightarrow> int option" where
  "js_nth bytes k = (if k < length bytes then bytes ! k else None)"

definition js_update :: "byte_array \<Rightarrow> nat \<Rightarrow> int \<Rightarrow> byte_array" where
  "js_update bytes k v =
     (if k < length bytes then bytes[k := Some v]
      else bytes @ replicate (k - length bytes) None @ [Some v])"

text \<open>\<open>ToInt32\<close> of what a slot holds, or of a number that may be NaN.\<close>

fun ToInt32_slot :: "int option \<Rightarrow> int" where
  "ToInt32_slot None = 0"
| "ToInt32_slot (Some n) = ToInt32_int n"

text \<open>\<open>a * 256 + b\<close> and \<open>a + b * scale\<close>, where \<open>None\<close> is NaN or \<open>undefined\<close>.\<close>

fun shift_add :: "int option \<Rightarrow> int option \<Rightarrow> int option" where
  "shift_add (Some a) (Some b) = Some (a * 256 + b)"
| "shift_add _ _ = None"

fun add_scaled :: "int option \<Rightarrow> int option \<Rightarrow> int \<Rightarrow> int option" where
  "add_scaled (Some a) (Some b) scale = Some (a + b * scale)"
| "add_scaled _ _ scale = None"


section \<open>polyfill.js: IntegerPolyfill\<close>

record IntegerPolyfill =
  ip_byteLength :: nat
  ip_bitLength :: nat
  ip_signed :: bool
  ip_signBit :: int
  ip_minValue :: int
  ip_maxValue :: int

text \<open>The constructor. \<open>signBit\<close> is set for signed types only; it is read for them only.\<close>

definition IntegerPolyfill_new :: "nat \<Rightarrow> bool \<Rightarrow> IntegerPolyfill" where
  "IntegerPolyfill_new byteLength signed =
     (let bitLength = byteLength * 8 in
      if signed then
        \<lparr> ip_byteLength = byteLength, ip_bitLength = bitLength, ip_signed = True,
          ip_signBit = 2 ^ (bitLength - 1),
          ip_minValue = - (2 ^ (bitLength - 1)),
          ip_maxValue = 2 ^ (bitLength - 1) - 1 \<rparr>
      else
        \<lparr> ip_byteLength = byteLength, ip_bitLength = bitLength, ip_signed = False,
          ip_signBit = 0,
          ip_minValue = 0,
          ip_maxValue = 2 ^ bitLength - 1 \<rparr>)"

text \<open>
  The loops of \<open>get\<close> and \<open>set\<close> run from \<open>i\<close> to \<open>stop = i + increment * byteLength\<close>
  in steps of \<open>increment\<close>, that is \<open>byteLength\<close> times; the count of remaining steps
  is the recursion argument.
\<close>

fun IntegerPolyfill_get_loop ::
  "byte_array \<Rightarrow> nat \<Rightarrow> int \<Rightarrow> int \<Rightarrow> nat \<Rightarrow> int \<Rightarrow> int option \<Rightarrow> int option" where
  "IntegerPolyfill_get_loop bytes byteOffset i increment 0 scale value = value"
| "IntegerPolyfill_get_loop bytes byteOffset i increment (Suc n) scale value =
     IntegerPolyfill_get_loop bytes byteOffset (i + increment) increment n (scale * 256)
       (add_scaled value (js_nth bytes (nat (int byteOffset + i))) scale)"

text \<open>
  \<open>get\<close>. A sum that is NaN, because a slot was empty, is falsy under \<open>value & signBit\<close>
  and is returned as it is.
\<close>

definition IntegerPolyfill_get :: "IntegerPolyfill \<Rightarrow> byte_array \<Rightarrow> nat \<Rightarrow> bool \<Rightarrow> jsnum" where
  "IntegerPolyfill_get P bytes byteOffset littleEndian =
     (let i = (if littleEndian then 0 else int (ip_byteLength P) - 1);
          increment = (if littleEndian then 1 else - 1);
          value = IntegerPolyfill_get_loop bytes byteOffset i increment (ip_byteLength P) 1 (Some 0)
      in (case value of
            None \<Rightarrow> NaN
          | Some value \<Rightarrow>
              (let value = (if ip_signed P \<and> (ToInt32_int value AND ToInt32_int (ip_signBit P)) \<noteq> 0
                            then value - 2 ^ ip_bitLength P else value)
               in Fin (of_int value))))"

fun IntegerPolyfill_set_loop :: "byte_array \<Rightarrow> nat \<Rightarrow> int \<Rightarrow> int \<Rightarrow> nat \<Rightarrow> jsnum \<Rightarrow> byte_array" where
  "IntegerPolyfill_set_loop bytes byteOffset i increment 0 value = bytes"
| "IntegerPolyfill_set_loop bytes byteOffset i increment (Suc n) value =
     IntegerPolyfill_set_loop (js_update bytes (nat (int byteOffset + i)) (ToInt32 value AND 255))
       byteOffset (i + increment) increment n (Fin (of_int (drop_bit 8 (ToInt32 value))))"

definition IntegerPolyfill_clamp :: "IntegerPolyfill \<Rightarrow> jsnum \<Rightarrow> jsnum" where
  "IntegerPolyfill_clamp P value =
     (if js_less value (Fin (of_int (ip_minValue P))) then Fin (of_int (ip_minValue P))
      else if js_less (Fin (of_int (ip_maxValue P))) value then Fin (of_int (ip_maxValue P))
      else value)"

definition IntegerPolyfill_set :: "IntegerPolyfill \<Rightarrow> byte_array \<Rightarrow> nat \<Rightarrow> jsnum \<Rightarrow> bool \<Rightarrow> byte_array" where
  "IntegerPolyfill_set P bytes byteOffset value littleEndian =
     (let i = (if littleEndian then 0 else int (ip_byteLength P) - 1);
          increment = (if littleEndian then 1 else - 1);
          value = IntegerPolyfill_clamp P value
      in IntegerPolyfill_set_loop bytes byteOffset i increment (ip_byteLength P) value)"


section \<open>polyfill.js: FloatPolyfill\<close>

record FloatPolyfill =
  fp_byteLength :: nat
  numSignificandBits :: nat
  numExponentBits :: nat
  exponentMax :: int
  exponentBias :: int
  roundTo :: real

definition FloatPolyfill_new :: "nat \<Rightarrow> nat \<Rightarrow> real option \<Rightarrow> FloatPolyfill" where
  "FloatPolyfill_new byteLength nsb rt =
     (let neb = byteLength * 8 - nsb - 1;
          emax = push_bit neb 1 - 1
      in \<lparr> fp_byteLength = byteLength, numSignificandBits = nsb, numExponentBits = neb,
           exponentMax = emax, exponentBias = drop_bit 1 emax,
           roundTo = (case rt of Some r \<Rightarrow> r | None \<Rightarrow> 0) \<rparr>)"

text \<open>
  The first half of \<open>set\<close>: the sign bit, the biased exponent and the significand of a
  value. The significand is a number, not yet truncated to an integer.

  For a finite value other than zero, \<open>FloatPolyfill_round\<close> is the part of the last
  branch up to \<open>biasedExponent = exponent + this.exponentBias\<close>: it returns
  \<open>absValue\<close> after the rounding constant has been added, \<open>coefficient\<close> after the
  carry, and \<open>biasedExponent\<close>.
\<close>

definition FloatPolyfill_round :: "FloatPolyfill \<Rightarrow> real \<Rightarrow> real \<times> real \<times> int" where
  "FloatPolyfill_round P v =
     (let absValue = \<bar>v\<bar>;
          exponent = floor_log2 absValue;
          coefficient = pow2 (- exponent);
          low = (absValue * coefficient < 1);
          exponent = (if low then exponent - 1 else exponent);
          coefficient = (if low then coefficient * 2 else coefficient);
          absValue = (if exponent + exponentBias P \<ge> 1
                      then absValue + roundTo P / coefficient
                      else absValue + roundTo P * pow2 (1 - exponentBias P));
          carry = (absValue * coefficient \<ge> 2);
          exponent = (if carry then exponent + 1 else exponent);
          coefficient = (if carry then coefficient / 2 else coefficient);
          biasedExponent = exponent + exponentBias P
      in (absValue, coefficient, biasedExponent))"

definition FloatPolyfill_parts :: "FloatPolyfill \<Rightarrow> jsnum \<Rightarrow> int \<times> int \<times> real" where
  "FloatPolyfill_parts P value =
     (if isNaN value then (0, exponentMax P, 2 ^ (numSignificandBits P - 1))
      else if value = PosInfinity then (0, exponentMax P, 0)
      else if value = NegInfinity then (1, exponentMax P, 0)
      else if js_strict_equals value (Fin 0) then ((if value = NegZero then 1 else 0), 0, 0)
      else
        (let v = real_of_jsnum value;
             signed = (if v < 0 then 1 else 0)
         in (case FloatPolyfill_round P v of
               (absValue, coefficient, biasedExponent) \<Rightarrow>
                 if biasedExponent \<ge> exponentMax P then (signed, exponentMax P, 0)
                 else if biasedExponent < 1 then
                   (signed, 0, absValue * pow2 (exponentBias P - 1) * 2 ^ numSignificandBits P)
                 else
                   (signed, biasedExponent,
                    (absValue * coefficient - 1) * 2 ^ numSignificandBits P))))"

text \<open>\<open>_floatPartsToByteArray\<close>: its two loops, then the function.\<close>

function significand_loop :: "byte_array \<Rightarrow> nat \<Rightarrow> int \<Rightarrow> int \<Rightarrow> real \<Rightarrow> int \<Rightarrow> byte_array \<times> int \<times> real \<times> int" where
  "significand_loop bytes byteOffset i increment significand remainingSignificandBits =
     (if remainingSignificandBits \<ge> 8 then
        significand_loop (js_update bytes (nat (int byteOffset + i)) (ToInt32_real significand AND 255))
          byteOffset (i + increment) increment (significand / 256) (remainingSignificandBits - 8)
      else (bytes, i, significand, remainingSignificandBits))"
  by pat_completeness auto
termination
  by (relation "measure (\<lambda>(bytes, byteOffset, i, increment, significand, r). nat r)") auto

declare significand_loop.simps [simp del]

function exponent_loop :: "byte_array \<Rightarrow> nat \<Rightarrow> int \<Rightarrow> int \<Rightarrow> real \<Rightarrow> int \<Rightarrow> byte_array \<times> int" where
  "exponent_loop bytes byteOffset i increment exponent remainingExponentBits =
     (if remainingExponentBits > 0 then
        exponent_loop (js_update bytes (nat (int byteOffset + i)) (ToInt32_real exponent AND 255))
          byteOffset (i + increment) increment (exponent / 256) (remainingExponentBits - 8)
      else (bytes, i))"
  by pat_completeness auto
termination
  by (relation "measure (\<lambda>(bytes, byteOffset, i, increment, exponent, r). nat r)") auto

declare exponent_loop.simps [simp del]

definition floatPartsToByteArray ::
  "FloatPolyfill \<Rightarrow> byte_array \<Rightarrow> nat \<Rightarrow> int \<Rightarrow> int \<Rightarrow> real \<Rightarrow> bool \<Rightarrow> byte_array" where
  "floatPartsToByteArray P bytes byteOffset signed exponent significand littleEndian =
     (let i = (if littleEndian then 0 else int (fp_byteLength P) - 1);
          increment = (if littleEndian then 1 else - 1);
          (bytes, i, significand, remainingSignificandBits) =
             significand_loop bytes byteOffset i increment significand (int (numSignificandBits P));
          exponent = ToInt32_int (push_bit (nat remainingSignificandBits) (ToInt32_int exponent))
                       OR ToInt32_real significand;
          remainingExponentBits = int (numExponentBits P) + remainingSignificandBits;
          (bytes, i) = exponent_loop bytes byteOffset i increment (of_int exponent) remainingExponentBits;
          k = nat (int byteOffset + i - increment)
      in js_update bytes k (ToInt32_slot (js_nth bytes k) OR ToInt32_int (signed * 128)))"

definition FloatPolyfill_set :: "FloatPolyfill \<Rightarrow> byte_array \<Rightarrow> nat \<Rightarrow> jsnum \<Rightarrow> bool \<Rightarrow> byte_array" where
  "FloatPolyfill_set P bytes byteOffset value littleEndian =
     (let (signed, biasedExponent, significand) = FloatPolyfill_parts P value
      in floatPartsToByteArray P bytes byteOffset signed biasedExponent significand littleEndian)"

text \<open>
  \<open>get\<close>: the loop reading the rest of the exponent, the loop reading the significand.
  The exponent and the significand they build are NaN, here \<open>None\<close>, once an empty slot
  has been read.
\<close>

function get_exponent_loop ::
  "byte_array \<Rightarrow> nat \<Rightarrow> int \<Rightarrow> int \<Rightarrow> int option \<Rightarrow> int \<Rightarrow> int \<times> int option \<times> int" where
  "get_exponent_loop bytes byteOffset i increment exponent remainingExponentBits =
     (if remainingExponentBits > 0 then
        get_exponent_loop bytes byteOffset (i + increment) increment
          (shift_add exponent (js_nth bytes (nat (int byteOffset + i)))) (remainingExponentBits - 8)
      else (i, exponent, remainingExponentBits))"
  by pat_completeness auto
termination
  by (relation "measure (\<lambda>(bytes, byteOffset, i, increment, exponent, r). nat r)") auto

declare get_exponent_loop.simps [simp del]

function get_significand_loop ::
  "byte_array \<Rightarrow> nat \<Rightarrow> int \<Rightarrow> int \<Rightarrow> int option \<Rightarrow> int \<Rightarrow> int option" where
  "get_significand_loop bytes byteOffset i increment significand remainingSignificandBits =
     (if remainingSignificandBits > 0 then
        get_significand_loop bytes byteOffset (i + increment) increment
          (shift_add significand (js_nth bytes (nat (int byteOffset + i)))) (remainingSignificandBits - 8)
      else significand)"
  by pat_completeness auto
termination
  by (relation "measure (\<lambda>(bytes, byteOffset, i, increment, significand, r). nat r)") auto

declare get_significand_loop.simps [simp del]

text \<open>
  The product \<open>(signed ? -1 : 1) * significand * Math.pow(2, e)\<close> that ends \<open>get\<close>:
  with a zero significand and the sign bit set it is negative zero, with a significand
  that is NaN it is NaN.
\<close>

fun signed_product :: "int \<Rightarrow> int option \<Rightarrow> int \<Rightarrow> jsnum" where
  "signed_product signed None e = NaN"
| "signed_product signed (Some significand) e =
     (if significand = 0 then (if signed \<noteq> 0 then NegZero else Fin 0)
      else Fin ((if signed \<noteq> 0 then - 1 else 1) * of_int significand * pow2 e))"

text \<open>
  The end of \<open>get\<close>, from the comment \<open>Handle special cases indicated by the value of
  exponent\<close> on: the number that the sign, the exponent bits and the significand bits
  read from the bytes stand for. The test \<open>if (significand)\<close> is false for 0 and for NaN.
\<close>

definition FloatPolyfill_value :: "FloatPolyfill \<Rightarrow> int \<Rightarrow> int \<Rightarrow> int option \<Rightarrow> jsnum" where
  "FloatPolyfill_value P signed exponent significand =
     (if exponent = 0 then
        signed_product signed significand (1 - exponentBias P - int (numSignificandBits P))
      else if exponent = exponentMax P then
        (if significand \<noteq> None \<and> significand \<noteq> Some 0 then NaN
         else if signed \<noteq> 0 then NegInfinity else PosInfinity)
      else
        signed_product signed (map_option (\<lambda>m. m + 2 ^ numSignificandBits P) significand)
          (exponent - exponentBias P - int (numSignificandBits P)))"

definition FloatPolyfill_get :: "FloatPolyfill \<Rightarrow> byte_array \<Rightarrow> nat \<Rightarrow> bool \<Rightarrow> jsnum" where
  "FloatPolyfill_get P bytes byteOffset littleEndian =
     (let i = (if littleEndian then int (fp_byteLength P) - 1 else 0);
          increment = (if littleEndian then - 1 else 1);
          signedAndExponent = js_nth bytes (nat (int byteOffset + i));
          signed = drop_bit 7 (ToInt32_slot signedAndExponent);
          exponent = ToInt32_slot signedAndExponent AND 127;
          i = i + increment;
          (i, exponent, remainingExponentBits) =
             get_exponent_loop bytes byteOffset i increment (Some exponent)
               (int (numExponentBits P) - 7);
          significand = ToInt32_slot exponent AND
                          (ToInt32_int (push_bit (nat (- remainingExponentBits)) 1) - 1);
          exponent = drop_bit (nat (- remainingExponentBits)) (ToInt32_slot exponent);
          remainingSignificandBits = int (numSignificandBits P) + remainingExponentBits;
          significand = get_significand_loop bytes byteOffset i increment (Some significand)
                          remainingSignificandBits
      in FloatPolyfill_value P signed exponent significand)"


section \<open>polyfill.js: ArrayBufferPolyfill and DataViewPolyfill\<close>

text \<open>
  Errors are values. \<open>KeyNotDefined\<close> and \<open>IdNotDefined\<close> are the two errors
  \<open>Schema\<close> throws on a failed lookup, \<open>ConfigError\<close> the errors of the
  constructors, \<open>Utf8Error\<close> an error thrown by the package \<open>utf8\<close>;
  \<open>Unmodelled\<close> marks an input outside the embedding (a value of a
  type that the field's codec would coerce in a way the embedding does not follow)
  and says nothing about what the code does there.
\<close>

datatype error =
    KeyNotDefined string
  | IdNotDefined jsnum
  | ConfigError string
  | RangeError string
  | TypeError string
  | Utf8Error
  | Unmodelled

text \<open>
  \<open>new ArrayBufferPolyfill(length)\<close>: the array \<open>new Array(length)\<close>, every slot of it
  empty.
\<close>

definition ArrayBufferPolyfill_new :: "nat \<Rightarrow> byte_array" where
  "ArrayBufferPolyfill_new length' = replicate length' None"

record DataViewPolyfill =
  buffer :: byte_array
  dv_byteOffset :: nat
  dv_byteLength :: nat

text \<open>\<open>new DataViewPolyfill(buffer)\<close>, as \<open>StreamView.create\<close> calls it.\<close>

definition DataViewPolyfill_new :: "byte_array \<Rightarrow> DataViewPolyfill" where
  "DataViewPolyfill_new buf = \<lparr> buffer = buf, dv_byteOffset = 0, dv_byteLength = length buf \<rparr>"

definition validateRange :: "DataViewPolyfill \<Rightarrow> nat \<Rightarrow> nat \<Rightarrow> error option" where
  "validateRange dv byteOffset byteLength =
     (if byteOffset < dv_byteOffset dv
        then Some (RangeError ''Offset is outside the bounds of the DataView'')
      else if byteOffset + byteLength > dv_byteOffset dv + dv_byteLength dv
        then Some (RangeError ''Invalid data view length'')
      else None)"

text \<open>
  The table \<open>DataViewPolyfill.prototype._polyfills\<close>, and the sixteen methods
  \<open>getFloat32\<close> \<dots> \<open>setUint32\<close>: an accessor names the pair of methods
  \<open>getFloat<bits>\<close>/\<open>setFloat<bits>\<close>, \<open>getInt<bits>\<close>/\<open>setInt<bits>\<close> or
  \<open>getUint<bits>\<close>/\<open>setUint<bits>\<close>.
\<close>

datatype accessor = FloatX nat | IntX nat | UintX nat

datatype polyfill = FloatP FloatPolyfill | IntegerP IntegerPolyfill

definition float32 :: FloatPolyfill where
  "float32 = FloatPolyfill_new 4 23 (Some (pow2 (- 24) - pow2 (- 77)))"

definition float64 :: FloatPolyfill where
  "float64 = FloatPolyfill_new 8 52 None"

fun polyfills :: "accessor \<Rightarrow> polyfill option" where
  "polyfills (FloatX bits) =
     (if bits = 32 then Some (FloatP float32)
      else if bits = 64 then Some (FloatP float64) else None)"
| "polyfills (IntX bits) =
     (if bits = 8 then Some (IntegerP (IntegerPolyfill_new 1 True))
      else if bits = 16 then Some (IntegerP (IntegerPolyfill_new 2 True))
      else if bits = 32 then Some (IntegerP (IntegerPolyfill_new 4 True)) else None)"
| "polyfills (UintX bits) =
     (if bits = 8 then Some (IntegerP (IntegerPolyfill_new 1 False))
      else if bits = 16 then Some (IntegerP (IntegerPolyfill_new 2 False))
      else if bits = 32 then Some (IntegerP (IntegerPolyfill_new 4 False)) else None)"

fun polyfill_byteLength :: "polyfill \<Rightarrow> nat" where
  "polyfill_byteLength (FloatP P) = fp_byteLength P"
| "polyfill_byteLength (IntegerP P) = ip_byteLength P"

fun polyfill_get :: "polyfill \<Rightarrow> byte_array \<Rightarrow> nat \<Rightarrow> bool \<Rightarrow> jsnum" where
  "polyfill_get (FloatP P) = FloatPolyfill_get P"
| "polyfill_get (IntegerP P) = IntegerPolyfill_get P"

fun polyfill_set :: "polyfill \<Rightarrow> byte_array \<Rightarrow> nat \<Rightarrow> jsnum \<Rightarrow> bool \<Rightarrow> byte_array" where
  "polyfill_set (FloatP P) = FloatPolyfill_set P"
| "polyfill_set (IntegerP P) = IntegerPolyfill_set P"

text \<open>
  \<open>dataView[getter](byteOffset, littleEndian)\<close> and
  \<open>dataView[setter](byteOffset, value, littleEndian)\<close>: the method, then \<open>_get\<close> or
  \<open>_set\<close>. A name that is no method of the view is a \<open>TypeError\<close>.
\<close>

definition DataViewPolyfill_get ::
  "DataViewPolyfill \<Rightarrow> accessor \<Rightarrow> nat \<Rightarrow> bool \<Rightarrow> error + jsnum" where
  "DataViewPolyfill_get dv acc byteOffset littleEndian =
     (case polyfills acc of
        None \<Rightarrow> Inl (TypeError ''not a function'')
      | Some P \<Rightarrow>
          (let byteOffset = byteOffset + dv_byteOffset dv in
           (case validateRange dv byteOffset (polyfill_byteLength P) of
              Some e \<Rightarrow> Inl e
            | None \<Rightarrow> Inr (polyfill_get P (buffer dv) byteOffset littleEndian))))"

definition DataViewPolyfill_set ::
  "DataViewPolyfill \<Rightarrow> accessor \<Rightarrow> nat \<Rightarrow> jsnum \<Rightarrow> bool \<Rightarrow> error + DataViewPolyfill" where
  "DataViewPolyfill_set dv acc byteOffset value littleEndian =
     (case polyfills acc of
        None \<Rightarrow> Inl (TypeError ''not a function'')
      | Some P \<Rightarrow>
          (let byteOffset = byteOffset + dv_byteOffset dv in
           (case validateRange dv byteOffset (polyfill_byteLength P) of
              Some e \<Rightarrow> Inl e
            | None \<Rightarrow> Inr (dv \<lparr> buffer := polyfill_set P (buffer dv) byteOffset value littleEndian \<rparr>))))"


section \<open>jettison.js: values\<close>

text \<open>
  The values a field can hold. A string is its list of UTF-16 code units; property
  names (field keys, definition keys, type names), which are only compared, are HOL
  strings. An object passed to a \<open>Definition\<close> is a map from field keys to values.
\<close>

type_synonym jsstring = "nat list"

datatype jsval = Undefined | Null | Bool bool | Num jsnum | Str jsstring | Arr "jsval list"

type_synonym jsobject = "string \<rightharpoonup> jsval"

text \<open>\<open>object[key]\<close>.\<close>

definition property :: "jsobject \<Rightarrow> string \<Rightarrow> jsval" where
  "property object k = (case object k of None \<Rightarrow> Undefined | Some v \<Rightarrow> v)"

text \<open>Truthiness, as \<open>value ? a : b\<close>, \<open>if (value)\<close> and \<open>!value\<close> test it.\<close>

fun ToBoolean :: "jsval \<Rightarrow> bool" where
  "ToBoolean Undefined = False"
| "ToBoolean Null = False"
| "ToBoolean (Bool b) = b"
| "ToBoolean (Num n) = (n \<noteq> NaN \<and> n \<noteq> NegZero \<and> n \<noteq> Fin 0)"
| "ToBoolean (Str s) = (s \<noteq> [])"
| "ToBoolean (Arr xs) = True"

text \<open>
  The number the relational, bitwise and arithmetic operators of the number codecs
  see in a value. A string or an array in the place of a number is outside the
  embedding.
\<close>

fun ToNumber :: "jsval \<Rightarrow> error + jsnum" where
  "ToNumber Undefined = Inr NaN"
| "ToNumber Null = Inr (Fin 0)"
| "ToNumber (Bool b) = Inr (Fin (if b then 1 else 0))"
| "ToNumber (Num n) = Inr n"
| "ToNumber (Str s) = Inl Unmodelled"
| "ToNumber (Arr xs) = Inl Unmodelled"

text \<open>
  The elements \<open>values[0]\<close> \<dots> \<open>values[length - 1]\<close> for
  \<open>length = (values && values.length) || 0\<close>: those of an array, the one-unit strings
  of a string, none for any other value.
\<close>

fun elements :: "jsval \<Rightarrow> jsval list" where
  "elements (Arr xs) = xs"
| "elements (Str s) = map (\<lambda>c. Str [c]) s"
| "elements _ = []"

text \<open>\<open>String.fromCharCode(n)\<close>: the code unit \<open>ToUint16(n)\<close>.\<close>

definition fromCharCode :: "jsnum \<Rightarrow> nat" where
  "fromCharCode n = (case n of Fin q \<Rightarrow> nat (trunc q mod 2 ^ 16) | _ \<Rightarrow> 0)"

text \<open>
  The package \<open>utf8\<close> that jettison.js imports is not part of the repository: its two
  functions are parameters of the embedding. Each maps a string to a string, or
  throws: \<open>None\<close>, which the embedding reports as \<open>Utf8Error\<close>.
\<close>

record utf8 =
  encode :: "jsstring \<Rightarrow> jsstring option"
  decode :: "jsstring \<Rightarrow> jsstring option"


section \<open>jettison.js: StreamView and the codecs\<close>

text \<open>
  \<open>_config\<close> holds the classes \<open>ArrayBuffer\<close> and \<open>DataView\<close> that jettison.js works
  with: those of the platform where it has both, the polyfills otherwise. The classes of
  the platform are not part of the repository, so the configuration is a parameter of
  the embedding, as \<open>utf8\<close> is. A configuration gives, for its type \<open>'dv\<close> of data
  views,
    \<^item> \<open>new_DataView n\<close>: \<open>new _config.DataView(new _config.ArrayBuffer(n))\<close>;
    \<^item> \<open>byteLength_of v\<close>: the property \<open>v.byteLength\<close>;
    \<^item> \<open>getter v a\<close> and \<open>setter v a\<close>: the methods \<open>v[getter]\<close> and \<open>v[setter]\<close> for the
      accessor \<open>a\<close>. A setter returns the view as the call leaves it, or the error thrown.
  \<open>polyfill_config\<close> is the configuration of the \<open>else\<close> branch.
\<close>

record 'dv config =
  new_DataView :: "nat \<Rightarrow> 'dv"
  byteLength_of :: "'dv \<Rightarrow> nat"
  getter :: "'dv \<Rightarrow> accessor \<Rightarrow> nat \<Rightarrow> bool \<Rightarrow> error + jsnum"
  setter :: "'dv \<Rightarrow> accessor \<Rightarrow> nat \<Rightarrow> jsnum \<Rightarrow> bool \<Rightarrow> error + 'dv"

definition polyfill_config :: "DataViewPolyfill config" where
  "polyfill_config =
     \<lparr> new_DataView = (\<lambda>byteLength. DataViewPolyfill_new (ArrayBufferPolyfill_new byteLength)),
       byteLength_of = dv_byteLength,
       getter = DataViewPolyfill_get,
       setter = DataViewPolyfill_set \<rparr>"

record 'dv StreamView =
  dataView :: 'dv
  byteOffset :: nat

definition StreamView_create :: "'dv config \<Rightarrow> nat \<Rightarrow> 'dv StreamView" where
  "StreamView_create C byteLength = \<lparr> dataView = new_DataView C byteLength, byteOffset = 0 \<rparr>"

text \<open>
  The codec classes. \<open>BooleanCodec\<close>, \<open>FloatCodec\<close> and \<open>IntegerCodec\<close> extend
  \<open>Codec\<close> and have a \<open>byteLength\<close>; the other three have none. The arguments of a
  constructor are the arguments of the class's constructor: the byte length of a
  float codec, the byte length and signedness of an integer codec, the value codec
  of an array codec.
\<close>

datatype codec =
    BooleanCodec
  | FloatCodec nat
  | IntegerCodec nat bool
  | BooleanArrayCodec
  | ArrayCodec codec
  | StringCodec

text \<open>The property \<open>byteLength\<close> of a codec object; \<open>None\<close> where the object has none.\<close>

fun codec_byteLength :: "codec \<Rightarrow> nat option" where
  "codec_byteLength BooleanCodec = Some 1"
| "codec_byteLength (FloatCodec byteLength) = Some byteLength"
| "codec_byteLength (IntegerCodec byteLength signed) = Some byteLength"
| "codec_byteLength BooleanArrayCodec = None"
| "codec_byteLength (ArrayCodec valueCodec) = None"
| "codec_byteLength StringCodec = None"

text \<open>The properties \<open>getter\<close> and \<open>setter\<close> the three constructors pass to \<open>Codec\<close>.\<close>

fun codec_accessor :: "codec \<Rightarrow> accessor" where
  "codec_accessor (FloatCodec byteLength) = FloatX (byteLength * 8)"
| "codec_accessor (IntegerCodec byteLength signed) =
     (if signed then IntX (byteLength * 8) else UintX (byteLength * 8))"
| "codec_accessor _ = UintX 8"

text \<open>The constructors of \<open>Codec\<close> and \<open>FloatCodec\<close>, with their checks.\<close>

definition Codec_check :: "codec \<Rightarrow> error + codec" where
  "Codec_check c =
     (if the (codec_byteLength c) \<le> 0 then Inl (ConfigError ''byteLength must be a positive integer'')
      else if polyfills (codec_accessor c) = None then Inl (ConfigError ''getter must be a DataView method'')
      else Inr c)"

definition FloatCodec_new :: "nat \<Rightarrow> error + codec" where
  "FloatCodec_new byteLength =
     (if byteLength = 4 then Codec_check (FloatCodec byteLength)
      else if byteLength = 8 then Codec_check (FloatCodec byteLength)
      else Inl (RangeError ''byteLength must be 4 or 8 for floats''))"

definition IntegerCodec_new :: "nat \<Rightarrow> bool \<Rightarrow> error + codec" where
  "IntegerCodec_new byteLength signed = Codec_check (IntegerCodec byteLength signed)"

definition IntegerCodec_minValue :: "nat \<Rightarrow> bool \<Rightarrow> int" where
  "IntegerCodec_minValue byteLength signed =
     (let bitLength = byteLength * 8 in if signed then - (2 ^ (bitLength - 1)) else 0)"

definition IntegerCodec_maxValue :: "nat \<Rightarrow> bool \<Rightarrow> int" where
  "IntegerCodec_maxValue byteLength signed =
     (let bitLength = byteLength * 8 in if signed then 2 ^ (bitLength - 1) - 1 else 2 ^ bitLength - 1)"

text \<open>\<open>Codec.get\<close> and \<open>Codec.set\<close>.\<close>

definition Codec_get :: "'dv config \<Rightarrow> codec \<Rightarrow> 'dv StreamView \<Rightarrow> bool \<Rightarrow> error + jsnum \<times> 'dv StreamView" where
  "Codec_get C c streamView littleEndian =
     (case getter C (dataView streamView) (codec_accessor c) (byteOffset streamView) littleEndian of
        Inl e \<Rightarrow> Inl e
      | Inr value \<Rightarrow>
          Inr (value, streamView \<lparr> byteOffset := byteOffset streamView + the (codec_byteLength c) \<rparr>))"

definition Codec_set :: "'dv config \<Rightarrow> codec \<Rightarrow> 'dv StreamView \<Rightarrow> jsnum \<Rightarrow> bool \<Rightarrow> error + 'dv StreamView" where
  "Codec_set C c streamView value littleEndian =
     (case setter C (dataView streamView) (codec_accessor c) (byteOffset streamView) value littleEndian of
        Inl e \<Rightarrow> Inl e
      | Inr dv \<Rightarrow>
          Inr (streamView \<lparr> dataView := dv, byteOffset := byteOffset streamView + the (codec_byteLength c) \<rparr>))"

text \<open>\<open>BooleanCodec\<close>.\<close>

definition BooleanCodec_get :: "'dv config \<Rightarrow> 'dv StreamView \<Rightarrow> bool \<Rightarrow> error + jsval \<times> 'dv StreamView" where
  "BooleanCodec_get C streamView littleEndian =
     (case Codec_get C BooleanCodec streamView littleEndian of
        Inl e \<Rightarrow> Inl e
      | Inr (value, sv) \<Rightarrow> Inr (Bool (ToBoolean (Num value)), sv))"

definition BooleanCodec_set :: "'dv config \<Rightarrow> 'dv StreamView \<Rightarrow> jsval \<Rightarrow> bool \<Rightarrow> error + 'dv StreamView" where
  "BooleanCodec_set C streamView value littleEndian =
     Codec_set C BooleanCodec streamView (Fin (if ToBoolean value then 1 else 0)) littleEndian"

text \<open>\<open>IntegerCodec.set\<close>, on the number its comparisons see in the value.\<close>

definition IntegerCodec_set :: "'dv config \<Rightarrow> nat \<Rightarrow> bool \<Rightarrow> 'dv StreamView \<Rightarrow> jsnum \<Rightarrow> bool \<Rightarrow> error + 'dv StreamView" where
  "IntegerCodec_set C byteLength signed streamView value littleEndian =
     (let minValue = Fin (of_int (IntegerCodec_minValue byteLength signed));
          maxValue = Fin (of_int (IntegerCodec_maxValue byteLength signed));
          value = (if js_less value minValue then minValue
                   else if js_less maxValue value then maxValue
                   else value)
      in Codec_set C (IntegerCodec byteLength signed) streamView value littleEndian)"

text \<open>The two codecs the other codecs use for lengths and bytes.\<close>

abbreviation uint8 :: codec where "uint8 \<equiv> IntegerCodec 1 False"
abbreviation uint32 :: codec where "uint32 \<equiv> IntegerCodec 4 False"

definition uint8_set :: "'dv config \<Rightarrow> 'dv StreamView \<Rightarrow> int \<Rightarrow> bool \<Rightarrow> error + 'dv StreamView" where
  "uint8_set C streamView byte littleEndian = IntegerCodec_set C 1 False streamView (Fin (of_int byte)) littleEndian"

definition uint8_get :: "'dv config \<Rightarrow> 'dv StreamView \<Rightarrow> bool \<Rightarrow> error + jsnum \<times> 'dv StreamView" where
  "uint8_get C streamView littleEndian = Codec_get C uint8 streamView littleEndian"

definition uint32_set :: "'dv config \<Rightarrow> 'dv StreamView \<Rightarrow> nat \<Rightarrow> bool \<Rightarrow> error + 'dv StreamView" where
  "uint32_set C streamView n littleEndian = IntegerCodec_set C 4 False streamView (Fin (of_nat n)) littleEndian"

definition uint32_get :: "'dv config \<Rightarrow> 'dv StreamView \<Rightarrow> bool \<Rightarrow> error + jsnum \<times> 'dv StreamView" where
  "uint32_get C streamView littleEndian = Codec_get C uint32 streamView littleEndian"


subsection \<open>BooleanArrayCodec\<close>

text \<open>
  \<open>getByteLength\<close> calls \<open>polyfill.log2\<close>. The module polyfill.js declares \<open>log2\<close>
  with \<open>let\<close> and exports its four classes only, so the module object that
  jettison.js imports has no property \<open>log2\<close>, and the call of that undefined value
  throws a \<open>TypeError\<close>, after \<open>length\<close> and \<open>valueBytes\<close> have been computed.
\<close>

definition BooleanArrayCodec_getByteLength :: "jsval \<Rightarrow> error + nat" where
  "BooleanArrayCodec_getByteLength values =
     (let length' = length (elements values);
          valueBytes = (length' + 7) div 8
      in Inl (TypeError ''polyfill.log2 is not a function''))"

text \<open>
  The loop of \<open>_getLength\<close> reads bytes until one has its high bit clear. With a data
  view whose getter never throws and never returns such a byte it does not end, so the
  loop is a partial function: \<open>None\<close> is the run that never returns.
\<close>

partial_function (option) getLength_loop ::
  "'dv config \<Rightarrow> 'dv StreamView \<Rightarrow> bool \<Rightarrow> nat \<Rightarrow> jsnum \<Rightarrow> int \<Rightarrow> (error + int \<times> 'dv StreamView) option" where
  "getLength_loop C streamView littleEndian i byte length' =
     (if (ToInt32 byte AND 128) \<noteq> 0 then
        (case uint8_get C streamView littleEndian of
           Inl e \<Rightarrow> Some (Inl e)
         | Inr (byte, sv) \<Rightarrow>
             getLength_loop C sv littleEndian (i + 1) byte
               (length' OR ToInt32_int (push_bit ((i * 7) mod 32) (ToInt32 byte AND 127))))
      else Some (Inr (length', streamView)))"

definition BooleanArrayCodec_getLength ::
  "'dv config \<Rightarrow> 'dv StreamView \<Rightarrow> bool \<Rightarrow> (error + int \<times> 'dv StreamView) option" where
  "BooleanArrayCodec_getLength C streamView littleEndian =
     getLength_loop C streamView littleEndian 0 (Fin 128) 0"

function setLength_loop :: "'dv config \<Rightarrow> 'dv StreamView \<Rightarrow> int \<Rightarrow> bool \<Rightarrow> error + 'dv StreamView" where
  "setLength_loop C streamView remainder littleEndian =
     (if remainder > 0 then
        (let byte = ToInt32_int remainder AND 127;
             remainder = drop_bit 7 (ToInt32_int remainder);
             byte = (if remainder \<noteq> 0 then byte OR 128 else byte)
         in (case uint8_set C streamView byte littleEndian of
               Inl e \<Rightarrow> Inl e
             | Inr sv \<Rightarrow> setLength_loop C sv remainder littleEndian))
      else Inr streamView)"
  by pat_completeness auto
termination
proof (relation "measure (\<lambda>(C, sv, remainder, le). nat remainder)")
  show "wf (measure (\<lambda>(C, sv, remainder, le). nat remainder))" by simp
next
  fix C :: "'dv config" and streamView :: "'dv StreamView" and remainder :: int
    and littleEndian :: bool and x xa xb x2
  assume r: "0 < remainder" and xa: "xa = drop_bit 7 (ToInt32_int remainder)"
  have "ToInt32_int remainder \<le> remainder"
  proof -
    have "remainder mod 2 ^ 32 \<le> remainder" using r by (simp add: zmod_le_nonneg_dividend)
    then show ?thesis by (simp add: ToInt32_int_def Let_def)
  qed
  moreover have "drop_bit 7 (ToInt32_int remainder) < remainder"
  proof (cases "0 < ToInt32_int remainder")
    case True
    then have "ToInt32_int remainder div 128 < ToInt32_int remainder" by simp
    then show ?thesis using calculation by (simp add: drop_bit_eq_div)
  next
    case False
    then have "ToInt32_int remainder div 128 \<le> 0" by simp
    then show ?thesis using r by (simp add: drop_bit_eq_div)
  qed
  ultimately show "((C, x2, xa, littleEndian), (C, streamView, remainder, littleEndian))
                   \<in> measure (\<lambda>(C, sv, remainder, le). nat remainder)"
    using r xa by simp
qed

declare setLength_loop.simps [simp del]

definition BooleanArrayCodec_setLength :: "'dv config \<Rightarrow> 'dv StreamView \<Rightarrow> nat \<Rightarrow> bool \<Rightarrow> error + 'dv StreamView" where
  "BooleanArrayCodec_setLength C streamView length' littleEndian =
     (if length' = 0 then uint8_set C streamView 0 littleEndian
      else setLength_loop C streamView (int length') littleEndian)"

text \<open>
  The loop of \<open>set\<close>, over the elements \<open>values[i]\<close>; \<open>byte\<close> and \<open>bit\<close> are its two
  variables. It returns them for the test \<open>bit > 0\<close> that follows the loop.
\<close>

fun BooleanArrayCodec_set_loop ::
  "'dv config \<Rightarrow> 'dv StreamView \<Rightarrow> jsval list \<Rightarrow> int \<Rightarrow> nat \<Rightarrow> bool \<Rightarrow> error + 'dv StreamView \<times> int \<times> nat" where
  "BooleanArrayCodec_set_loop C streamView [] byte bit' littleEndian = Inr (streamView, byte, bit')"
| "BooleanArrayCodec_set_loop C streamView (v # vs) byte bit' littleEndian =
     (if bit' = 8 then
        (case uint8_set C streamView byte littleEndian of
           Inl e \<Rightarrow> Inl e
         | Inr sv \<Rightarrow>
             BooleanArrayCodec_set_loop C sv vs
               (0 OR ToInt32_int (push_bit 0 (if ToBoolean v then 1 else 0))) 1 littleEndian)
      else
        BooleanArrayCodec_set_loop C streamView vs
          (byte OR ToInt32_int (push_bit bit' (if ToBoolean v then 1 else 0))) (bit' + 1) littleEndian)"

definition BooleanArrayCodec_set :: "'dv config \<Rightarrow> 'dv StreamView \<Rightarrow> jsval \<Rightarrow> bool \<Rightarrow> error + 'dv StreamView" where
  "BooleanArrayCodec_set C streamView values littleEndian =
     (let length' = length (elements values) in
      (case BooleanArrayCodec_setLength C streamView length' littleEndian of
         Inl e \<Rightarrow> Inl e
       | Inr sv \<Rightarrow>
           (case BooleanArrayCodec_set_loop C sv (elements values) 0 0 littleEndian of
              Inl e \<Rightarrow> Inl e
            | Inr (sv, byte, bit') \<Rightarrow>
                if bit' > 0 then uint8_set C sv byte littleEndian else Inr sv)))"

text \<open>The inner loop of \<open>get\<close>, over the bits of one byte, and the outer loop over the bytes.\<close>

function BooleanArrayCodec_get_bits :: "jsnum \<Rightarrow> nat \<Rightarrow> int \<Rightarrow> int \<Rightarrow> jsval list \<Rightarrow> jsval list \<times> int" where
  "BooleanArrayCodec_get_bits byte bit' i length' values =
     (if bit' < 8 \<and> i < length' then
        BooleanArrayCodec_get_bits byte (bit' + 1) (i + 1) length'
          (values @ [Bool ((drop_bit bit' (ToInt32 byte) AND 1) \<noteq> 0)])
      else (values, i))"
  by pat_completeness auto
termination
  by (relation "measure (\<lambda>(byte, bit', i, length', values). 8 - bit')") auto

declare BooleanArrayCodec_get_bits.simps [simp del]

fun BooleanArrayCodec_get_bytes ::
  "'dv config \<Rightarrow> 'dv StreamView \<Rightarrow> bool \<Rightarrow> nat \<Rightarrow> int \<Rightarrow> int \<Rightarrow> jsval list \<Rightarrow> error + jsval list \<times> 'dv StreamView" where
  "BooleanArrayCodec_get_bytes C streamView littleEndian 0 i length' values = Inr (values, streamView)"
| "BooleanArrayCodec_get_bytes C streamView littleEndian (Suc n) i length' values =
     (case uint8_get C streamView littleEndian of
        Inl e \<Rightarrow> Inl e
      | Inr (byte, sv) \<Rightarrow>
          (case BooleanArrayCodec_get_bits byte 0 i length' values of
             (values, i) \<Rightarrow> BooleanArrayCodec_get_bytes C sv littleEndian n i length' values))"

text \<open>
  The methods \<open>get\<close> of the codecs return \<open>None\<close> when a loop in them never ends, and
  \<open>Some\<close> of the value read and the stream view, or of the error thrown, otherwise.
\<close>

definition BooleanArrayCodec_get ::
  "'dv config \<Rightarrow> 'dv StreamView \<Rightarrow> bool \<Rightarrow> (error + jsval \<times> 'dv StreamView) option" where
  "BooleanArrayCodec_get C streamView littleEndian =
     (case BooleanArrayCodec_getLength C streamView littleEndian of
        None \<Rightarrow> None
      | Some (Inl e) \<Rightarrow> Some (Inl e)
      | Some (Inr (length', sv)) \<Rightarrow>
          (let byteLength = nat ((length' + 7) div 8) in
           (case BooleanArrayCodec_get_bytes C sv littleEndian byteLength 0 length' [] of
              Inl e \<Rightarrow> Some (Inl e)
            | Inr (values, sv) \<Rightarrow> Some (Inr (Arr values, sv)))))"

subsection \<open>StringCodec\<close>

text \<open>
  \<open>getByteLength\<close>: an empty string is falsy and has length 0; \<open>undefined\<close> and \<open>null\<close>
  are falsy and have no property \<open>length\<close>, so reading it throws a \<open>TypeError\<close>. A
  value of another type is outside the embedding.
\<close>

definition StringCodec_getByteLength :: "utf8 \<Rightarrow> jsval \<Rightarrow> error + nat" where
  "StringCodec_getByteLength U value =
     (case value of
        Str s \<Rightarrow>
          (if ToBoolean value then
             (case encode U s of None \<Rightarrow> Inl Utf8Error | Some utf8String \<Rightarrow> Inr (4 + 1 * length utf8String))
           else Inr (4 + 1 * length s))
      | Undefined \<Rightarrow> Inl (TypeError ''Cannot read property length of undefined'')
      | Null \<Rightarrow> Inl (TypeError ''Cannot read property length of null'')
      | _ \<Rightarrow> Inl Unmodelled)"

fun StringCodec_set_loop :: "'dv config \<Rightarrow> 'dv StreamView \<Rightarrow> jsstring \<Rightarrow> bool \<Rightarrow> error + 'dv StreamView" where
  "StringCodec_set_loop C streamView [] littleEndian = Inr streamView"
| "StringCodec_set_loop C streamView (c # cs) littleEndian =
     (case IntegerCodec_set C 1 False streamView (Fin (of_nat c)) littleEndian of
        Inl e \<Rightarrow> Inl e
      | Inr sv \<Rightarrow> StringCodec_set_loop C sv cs littleEndian)"

definition StringCodec_set :: "'dv config \<Rightarrow> utf8 \<Rightarrow> 'dv StreamView \<Rightarrow> jsval \<Rightarrow> bool \<Rightarrow> error + 'dv StreamView" where
  "StringCodec_set C U streamView value littleEndian =
     (if ToBoolean value then
        (case value of
           Str s \<Rightarrow>
             (case encode U s of
                None \<Rightarrow> Inl Utf8Error
              | Some utf8String \<Rightarrow>
                  (case uint32_set C streamView (length utf8String) littleEndian of
                     Inl e \<Rightarrow> Inl e
                   | Inr sv \<Rightarrow> StringCodec_set_loop C sv utf8String littleEndian))
         | _ \<Rightarrow> Inl Unmodelled)
      else uint32_set C streamView 0 littleEndian)"

text \<open>
  The loop \<open>for (let i = 0; i < length; i++)\<close> of \<open>get\<close>, for the number \<open>length\<close> that
  the getter of the data view returned: it does not end when that number is
  \<open>Infinity\<close> and the getter never throws.
\<close>

partial_function (option) StringCodec_get_loop ::
  "'dv config \<Rightarrow> 'dv StreamView \<Rightarrow> bool \<Rightarrow> nat \<Rightarrow> jsnum \<Rightarrow> jsstring \<Rightarrow> (error + jsstring \<times> 'dv StreamView) option" where
  "StringCodec_get_loop C streamView littleEndian i length' string' =
     (if js_less (Fin (of_nat i)) length' then
        (case Codec_get C uint8 streamView littleEndian of
           Inl e \<Rightarrow> Some (Inl e)
         | Inr (value, sv) \<Rightarrow>
             StringCodec_get_loop C sv littleEndian (i + 1) length' (string' @ [fromCharCode value]))
      else Some (Inr (string', streamView)))"

definition StringCodec_get ::
  "'dv config \<Rightarrow> utf8 \<Rightarrow> 'dv StreamView \<Rightarrow> bool \<Rightarrow> (error + jsval \<times> 'dv StreamView) option" where
  "StringCodec_get C U streamView littleEndian =
     (case uint32_get C streamView littleEndian of
        Inl e \<Rightarrow> Some (Inl e)
      | Inr (length', sv) \<Rightarrow>
          if js_less (Fin 0) length' then
            (case StringCodec_get_loop C sv littleEndian 0 length' [] of
               None \<Rightarrow> None
             | Some (Inl e) \<Rightarrow> Some (Inl e)
             | Some (Inr (string', sv)) \<Rightarrow>
                 (case decode U string' of
                    None \<Rightarrow> Some (Inl Utf8Error)
                  | Some s \<Rightarrow> Some (Inr (Str s, sv))))
          else Some (Inr (Str [], sv)))"

subsection \<open>ArrayCodec, and the methods of a codec of any class\<close>

text \<open>The loops of \<open>ArrayCodec\<close>, over a method of the value codec.\<close>

fun getByteLength_loop :: "(jsval \<Rightarrow> error + nat) \<Rightarrow> nat \<Rightarrow> jsval list \<Rightarrow> error + nat" where
  "getByteLength_loop f byteLength [] = Inr byteLength"
| "getByteLength_loop f byteLength (v # vs) =
     (case f v of Inl e \<Rightarrow> Inl e | Inr n \<Rightarrow> getByteLength_loop f (byteLength + n) vs)"

fun set_loop :: "('dv StreamView \<Rightarrow> jsval \<Rightarrow> error + 'dv StreamView) \<Rightarrow> 'dv StreamView \<Rightarrow> jsval list \<Rightarrow> error + 'dv StreamView" where
  "set_loop f streamView [] = Inr streamView"
| "set_loop f streamView (v # vs) =
     (case f streamView v of Inl e \<Rightarrow> Inl e | Inr sv \<Rightarrow> set_loop f sv vs)"

fun get_loop ::
  "('dv StreamView \<Rightarrow> (error + jsval \<times> 'dv StreamView) option) \<Rightarrow> 'dv StreamView \<Rightarrow> nat \<Rightarrow> jsval list \<Rightarrow>
   (error + jsval list \<times> 'dv StreamView) option" where
  "get_loop f streamView 0 values = Some (Inr (values, streamView))"
| "get_loop f streamView (Suc n) values =
     (case f streamView of
        None \<Rightarrow> None
      | Some (Inl e) \<Rightarrow> Some (Inl e)
      | Some (Inr (v, sv)) \<Rightarrow> get_loop f sv n (values @ [v]))"

text \<open>
  \<open>new Array(length)\<close> for a number \<open>length\<close>: the length of the array, or \<open>None\<close> where
  the constructor throws a \<open>RangeError\<close>, the number being no integer from 0 to
  \<open>2^32 - 1\<close>.
\<close>

definition array_length :: "jsnum \<Rightarrow> nat option" where
  "array_length n =
     (case n of
        Fin q \<Rightarrow> if 0 \<le> q \<and> q < 2 ^ 32 \<and> of_int \<lfloor>q\<rfloor> = q then Some (nat \<lfloor>q\<rfloor>) else None
      | NegZero \<Rightarrow> Some 0
      | _ \<Rightarrow> None)"

text \<open>
  \<open>codec.getByteLength(value)\<close>. The codecs with a \<open>byteLength\<close> have no such method;
  the callers test \<open>byteLength != null\<close> first.
\<close>

fun codec_getByteLength :: "utf8 \<Rightarrow> codec \<Rightarrow> jsval \<Rightarrow> error + nat" where
  "codec_getByteLength U BooleanArrayCodec values = BooleanArrayCodec_getByteLength values"
| "codec_getByteLength U StringCodec value = StringCodec_getByteLength U value"
| "codec_getByteLength U (ArrayCodec valueCodec) values =
     (if elements values = [] then Inr 0
      else
        (case codec_byteLength valueCodec of
           Some valueByteLength \<Rightarrow> Inr (4 + length (elements values) * valueByteLength)
         | None \<Rightarrow>
             getByteLength_loop (\<lambda>v. codec_getByteLength U valueCodec v) 4 (elements values)))"
| "codec_getByteLength U c value = Inl (TypeError ''getByteLength is not a function'')"

text \<open>\<open>codec.set(streamView, value, littleEndian)\<close>.\<close>

fun codec_set :: "'dv config \<Rightarrow> utf8 \<Rightarrow> codec \<Rightarrow> 'dv StreamView \<Rightarrow> jsval \<Rightarrow> bool \<Rightarrow> error + 'dv StreamView" where
  "codec_set C U BooleanCodec streamView value littleEndian = BooleanCodec_set C streamView value littleEndian"
| "codec_set C U (FloatCodec byteLength) streamView value littleEndian =
     (case ToNumber value of
        Inl e \<Rightarrow> Inl e
      | Inr n \<Rightarrow> Codec_set C (FloatCodec byteLength) streamView n littleEndian)"
| "codec_set C U (IntegerCodec byteLength signed) streamView value littleEndian =
     (case ToNumber value of
        Inl e \<Rightarrow> Inl e
      | Inr n \<Rightarrow> IntegerCodec_set C byteLength signed streamView n littleEndian)"
| "codec_set C U BooleanArrayCodec streamView values littleEndian =
     BooleanArrayCodec_set C streamView values littleEndian"
| "codec_set C U StringCodec streamView value littleEndian = StringCodec_set C U streamView value littleEndian"
| "codec_set C U (ArrayCodec valueCodec) streamView values littleEndian =
     (let length' = length (elements values) in
      (case uint32_set C streamView length' littleEndian of
         Inl e \<Rightarrow> Inl e
       | Inr sv \<Rightarrow>
           if length' > 0 then
             set_loop (\<lambda>sv v. codec_set C U valueCodec sv v littleEndian) sv (elements values)
           else Inr sv))"

text \<open>\<open>codec.get(streamView, littleEndian)\<close>.\<close>

fun codec_get ::
  "'dv config \<Rightarrow> utf8 \<Rightarrow> codec \<Rightarrow> 'dv StreamView \<Rightarrow> bool \<Rightarrow> (error + jsval \<times> 'dv StreamView) option" where
  "codec_get C U BooleanCodec streamView littleEndian = Some (BooleanCodec_get C streamView littleEndian)"
| "codec_get C U BooleanArrayCodec streamView littleEndian = BooleanArrayCodec_get C streamView littleEndian"
| "codec_get C U StringCodec streamView littleEndian = StringCodec_get C U streamView littleEndian"
| "codec_get C U (ArrayCodec valueCodec) streamView littleEndian =
     (case uint32_get C streamView littleEndian of
        Inl e \<Rightarrow> Some (Inl e)
      | Inr (length', sv) \<Rightarrow>
          if js_less (Fin 0) length' then
            (case array_length length' of
               None \<Rightarrow> Some (Inl (RangeError ''Invalid array length''))
             | Some n \<Rightarrow>
                 (case get_loop (\<lambda>sv. codec_get C U valueCodec sv littleEndian) sv n [] of
                    None \<Rightarrow> None
                  | Some (Inl e) \<Rightarrow> Some (Inl e)
                  | Some (Inr (values, sv)) \<Rightarrow> Some (Inr (Arr values, sv))))
          else Some (Inr (Arr [], sv)))"
| "codec_get C U c streamView littleEndian =
     (case Codec_get C c streamView littleEndian of
        Inl e \<Rightarrow> Some (Inl e)
      | Inr (value, sv) \<Rightarrow> Some (Inr (Num value, sv)))"

text \<open>The table \<open>_codecs\<close>.\<close>

definition codecs :: "string \<Rightarrow> codec option" where
  "codecs name =
     (if name = ''boolean'' then Some BooleanCodec
      else if name = ''float32'' then Some (FloatCodec 4)
      else if name = ''float64'' then Some (FloatCodec 8)
      else if name = ''int8'' then Some (IntegerCodec 1 True)
      else if name = ''int16'' then Some (IntegerCodec 2 True)
      else if name = ''int32'' then Some (IntegerCodec 4 True)
      else if name = ''uint8'' then Some (IntegerCodec 1 False)
      else if name = ''uint16'' then Some (IntegerCodec 2 False)
      else if name = ''uint32'' then Some (IntegerCodec 4 False)
      else if name = ''booleanArray'' then Some BooleanArrayCodec
      else if name = ''string'' then Some StringCodec
      else None)"

text \<open>\<open>new ArrayCodec(valueCodec)\<close> for the name of a value type.\<close>

definition ArrayCodec_new :: "string \<Rightarrow> error + codec" where
  "ArrayCodec_new valueCodec =
     (case codecs valueCodec of
        None \<Rightarrow> Inl (ConfigError (''Invalid array value type '' @ valueCodec))
      | Some c \<Rightarrow> Inr (ArrayCodec c))"

subsection \<open>StreamView: strings\<close>

fun toString_loop :: "'dv config \<Rightarrow> 'dv \<Rightarrow> nat \<Rightarrow> nat \<Rightarrow> jsstring \<Rightarrow> error + jsstring" where
  "toString_loop C dv i 0 string' = Inr string'"
| "toString_loop C dv i (Suc n) string' =
     (case getter C dv (UintX 8) i False of
        Inl e \<Rightarrow> Inl e
      | Inr value \<Rightarrow> toString_loop C dv (i + 1) n (string' @ [fromCharCode value]))"

definition StreamView_toString :: "'dv config \<Rightarrow> 'dv StreamView \<Rightarrow> error + jsstring" where
  "StreamView_toString C streamView =
     toString_loop C (dataView streamView) 0 (byteLength_of C (dataView streamView)) []"

definition StreamView_createFromString :: "'dv config \<Rightarrow> jsstring \<Rightarrow> error + 'dv StreamView" where
  "StreamView_createFromString C string' =
     (case StringCodec_set_loop C (StreamView_create C (length string')) string' False of
        Inl e \<Rightarrow> Inl e
      | Inr streamView \<Rightarrow> Inr (streamView \<lparr> byteOffset := 0 \<rparr>))"


section \<open>jettison.js: Field and Definition\<close>

definition isValidType :: "string \<Rightarrow> bool" where
  "isValidType type' = (codecs type' \<noteq> None \<or> type' = ''array'')"

text \<open>
  The object a \<open>Field\<close> is constructed from, and the \<open>Field\<close>. A property that the
  object lacks is \<open>None\<close>.
\<close>

record FieldOptions =
  fo_key :: "string option"
  fo_type :: "string option"
  fo_valueType :: "string option"

record Field =
  f_key :: string
  f_type :: string
  f_valueType :: "string option"
  f_codec :: codec

definition Field_new :: "FieldOptions \<Rightarrow> error + Field" where
  "Field_new options =
     (case fo_key options of
        None \<Rightarrow> Inl (ConfigError ''key is required'')
      | Some k \<Rightarrow>
          if k = [] then Inl (ConfigError ''key is required'')
          else
            (case fo_type options of
               None \<Rightarrow> Inl (ConfigError ''Invalid type'')
             | Some t \<Rightarrow>
                 if \<not> isValidType t then Inl (ConfigError (''Invalid type '' @ t))
                 else if t = ''array'' then
                   (case fo_valueType options of
                      None \<Rightarrow> Inl (ConfigError ''Invalid array value type'')
                    | Some vt \<Rightarrow>
                        if vt = ''array'' \<or> vt = ''string'' \<or> \<not> isValidType vt
                        then Inl (ConfigError (''Invalid array value type '' @ vt))
                        else
                          (case ArrayCodec_new vt of
                             Inl e \<Rightarrow> Inl e
                           | Inr c \<Rightarrow>
                               Inr \<lparr> f_key = k, f_type = t, f_valueType = Some vt, f_codec = c \<rparr>))
                 else
                   Inr \<lparr> f_key = k, f_type = t, f_valueType = fo_valueType options,
                         f_codec = the (codecs t) \<rparr>))"

text \<open>\<open>fields.map((options) => new Field(options))\<close>: the first error ends the map.\<close>

fun Field_map :: "FieldOptions list \<Rightarrow> error + Field list" where
  "Field_map [] = Inr []"
| "Field_map (options # rest) =
     (case Field_new options of
        Inl e \<Rightarrow> Inl e
      | Inr f \<Rightarrow> (case Field_map rest of Inl e \<Rightarrow> Inl e | Inr fs \<Rightarrow> Inr (f # fs)))"

text \<open>
  A \<open>Definition\<close>. \<open>d_byteLength\<close> is the property \<open>byteLength\<close> that \<open>getByteLength\<close>
  sets: \<open>None\<close> until then.
\<close>

record Definition =
  d_fields :: "Field list"
  d_id :: "nat option"
  d_key :: "string option"
  d_littleEndian :: "bool option"
  d_byteLength :: "nat option"

definition Definition_new :: "Field list \<Rightarrow> nat option \<Rightarrow> string option \<Rightarrow> bool option \<Rightarrow> Definition" where
  "Definition_new fields' id' key' littleEndian =
     \<lparr> d_fields = fields', d_id = id', d_key = key', d_littleEndian = littleEndian,
       d_byteLength = None \<rparr>"

text \<open>The flag \<open>this.littleEndian\<close> as the codecs test it.\<close>

definition littleEndian_of :: "Definition \<Rightarrow> bool" where
  "littleEndian_of d = (d_littleEndian d = Some True)"

text \<open>
  The loop of \<open>getByteLength\<close>, with its two variables \<open>byteLength\<close> and
  \<open>fixedByteLength\<close>.
\<close>

fun Definition_getByteLength_loop ::
  "utf8 \<Rightarrow> Field list \<Rightarrow> jsobject \<Rightarrow> nat \<Rightarrow> bool \<Rightarrow> error + nat \<times> bool" where
  "Definition_getByteLength_loop U [] object byteLength fixedByteLength =
     Inr (byteLength, fixedByteLength)"
| "Definition_getByteLength_loop U (f # fs) object byteLength fixedByteLength =
     (case codec_byteLength (f_codec f) of
        Some n \<Rightarrow> Definition_getByteLength_loop U fs object (byteLength + n) fixedByteLength
      | None \<Rightarrow>
          (case codec_getByteLength U (f_codec f) (property object (f_key f)) of
             Inl e \<Rightarrow> Inl e
           | Inr n \<Rightarrow> Definition_getByteLength_loop U fs object (byteLength + n) False))"

text \<open>
  \<open>getByteLength\<close> returns its result, or the error thrown, and the \<open>Definition\<close>
  as the call leaves it.
\<close>

definition Definition_getByteLength ::
  "utf8 \<Rightarrow> Definition \<Rightarrow> jsobject \<Rightarrow> (error + nat) \<times> Definition" where
  "Definition_getByteLength U d object =
     (case d_byteLength d of
        Some n \<Rightarrow> (Inr n, d)
      | None \<Rightarrow>
          (case Definition_getByteLength_loop U (d_fields d) object 0 True of
             Inl e \<Rightarrow> (Inl e, d)
           | Inr (byteLength, fixedByteLength) \<Rightarrow>
               if fixedByteLength then (Inr byteLength, d \<lparr> d_byteLength := Some byteLength \<rparr>)
               else (Inr byteLength, d)))"

fun Definition_get_loop ::
  "'dv config \<Rightarrow> utf8 \<Rightarrow> Field list \<Rightarrow> bool \<Rightarrow> 'dv StreamView \<Rightarrow> jsobject \<Rightarrow>
   (error + jsobject \<times> 'dv StreamView) option" where
  "Definition_get_loop C U [] littleEndian streamView values = Some (Inr (values, streamView))"
| "Definition_get_loop C U (f # fs) littleEndian streamView values =
     (case codec_get C U (f_codec f) streamView littleEndian of
        None \<Rightarrow> None
      | Some (Inl e) \<Rightarrow> Some (Inl e)
      | Some (Inr (v, sv)) \<Rightarrow> Definition_get_loop C U fs littleEndian sv (values (f_key f \<mapsto> v)))"

definition Definition_get ::
  "'dv config \<Rightarrow> utf8 \<Rightarrow> Definition \<Rightarrow> 'dv StreamView \<Rightarrow> (error + jsobject \<times> 'dv StreamView) option" where
  "Definition_get C U d streamView =
     Definition_get_loop C U (d_fields d) (littleEndian_of d) streamView Map.empty"

fun Definition_set_loop ::
  "'dv config \<Rightarrow> utf8 \<Rightarrow> Field list \<Rightarrow> bool \<Rightarrow> 'dv StreamView \<Rightarrow> jsobject \<Rightarrow> error + 'dv StreamView" where
  "Definition_set_loop C U [] littleEndian streamView object = Inr streamView"
| "Definition_set_loop C U (f # fs) littleEndian streamView object =
     (case codec_set C U (f_codec f) streamView (property object (f_key f)) littleEndian of
        Inl e \<Rightarrow> Inl e
      | Inr sv \<Rightarrow> Definition_set_loop C U fs littleEndian sv object)"

definition Definition_set :: "'dv config \<Rightarrow> utf8 \<Rightarrow> Definition \<Rightarrow> 'dv StreamView \<Rightarrow> jsobject \<Rightarrow> error + 'dv StreamView" where
  "Definition_set C U d streamView object =
     Definition_set_loop C U (d_fields d) (littleEndian_of d) streamView object"

definition Definition_parse :: "'dv config \<Rightarrow> utf8 \<Rightarrow> Definition \<Rightarrow> jsstring \<Rightarrow> (error + jsobject) option" where
  "Definition_parse C U d string' =
     (case StreamView_createFromString C string' of
        Inl e \<Rightarrow> Some (Inl e)
      | Inr streamView \<Rightarrow>
          (case Definition_get C U d streamView of
             None \<Rightarrow> None
           | Some (Inl e) \<Rightarrow> Some (Inl e)
           | Some (Inr (values, sv)) \<Rightarrow> Some (Inr values)))"

definition Definition_stringify ::
  "'dv config \<Rightarrow> utf8 \<Rightarrow> Definition \<Rightarrow> jsobject \<Rightarrow> (error + jsstring) \<times> Definition" where
  "Definition_stringify C U d object =
     (case Definition_getByteLength U d object of
        (Inl e, d') \<Rightarrow> (Inl e, d')
      | (Inr byteLength, d') \<Rightarrow>
          (case Definition_set C U d' (StreamView_create C byteLength) object of
             Inl e \<Rightarrow> (Inl e, d')
           | Inr streamView \<Rightarrow> (StreamView_toString C streamView, d')))"

text \<open>The exported \<open>define(fields)\<close>.\<close>

definition jettison_define :: "FieldOptions list \<Rightarrow> error + Definition" where
  "jettison_define fields' =
     (case Field_map fields' of
        Inl e \<Rightarrow> Inl e
      | Inr fs \<Rightarrow> Inr (Definition_new fs None None None))"


section \<open>jettison.js: Schema\<close>

text \<open>
  A \<open>Schema\<close>. Its two tables hold the same \<open>Definition\<close> objects: \<open>define\<close> stores
  one object under its key and under its id, and an id is never reused. The
  embedding keeps the objects in \<open>definitionsById\<close> and lets \<open>definitions\<close> map a key to
  the id of its object, so that the one property of a \<open>Definition\<close> that changes, the
  cached \<open>byteLength\<close>, is shared by both tables as it is in the source.
\<close>

record Schema =
  definitions :: "string \<rightharpoonup> nat"
  definitionsById :: "nat \<rightharpoonup> Definition"
  idType :: string
  nextDefinitionId :: nat

text \<open>\<open>new Schema({idType})\<close>; \<open>None\<close> is a call without the option.\<close>

definition Schema_new :: "string option \<Rightarrow> Schema" where
  "Schema_new idType' =
     \<lparr> definitions = Map.empty, definitionsById = Map.empty,
       idType = (case idType' of None \<Rightarrow> ''uint8'' | Some t \<Rightarrow> if t = [] then ''uint8'' else t),
       nextDefinitionId = 1 \<rparr>"

text \<open>The exported \<open>createSchema()\<close>.\<close>

definition createSchema :: Schema where
  "createSchema = Schema_new None"

text \<open>\<open>this.definitions[key]\<close>: the object registered last under the key.\<close>

definition definition_of_key :: "Schema \<Rightarrow> string \<Rightarrow> Definition option" where
  "definition_of_key schema key' =
     (case definitions schema key' of None \<Rightarrow> None | Some id' \<Rightarrow> definitionsById schema id')"

text \<open>
  \<open>this.definitionsById[id]\<close> for the number a codec has decoded: an entry exists for a
  number that is one of the ids only.
\<close>

definition definition_of_id :: "Schema \<Rightarrow> jsnum \<Rightarrow> Definition option" where
  "definition_of_id schema id' =
     (case id' of
        Fin q \<Rightarrow> if 0 \<le> q \<and> of_int \<lfloor>q\<rfloor> = q then definitionsById schema (nat \<lfloor>q\<rfloor>) else None
      | _ \<Rightarrow> None)"

text \<open>
  \<open>define\<close> increments \<open>nextDefinitionId\<close> before it constructs the fields: when a
  \<open>Field\<close> constructor throws, the id is used up and nothing is registered.
\<close>

definition Schema_define ::
  "Schema \<Rightarrow> string \<Rightarrow> FieldOptions list \<Rightarrow> (error + Definition) \<times> Schema" where
  "Schema_define schema key' fields' =
     (let id' = nextDefinitionId schema;
          schema = schema \<lparr> nextDefinitionId := nextDefinitionId schema + 1 \<rparr>
      in (case Field_map fields' of
            Inl e \<Rightarrow> (Inl e, schema)
          | Inr fs \<Rightarrow>
              (let definition = Definition_new fs (Some id') (Some key') None
               in (Inr definition,
                   schema \<lparr> definitions := (definitions schema) (key' \<mapsto> id'),
                            definitionsById := (definitionsById schema) (id' \<mapsto> definition) \<rparr>))))"

text \<open>The value \<open>{key: definition.key, data: ...}\<close> that \<open>parse\<close> returns.\<close>

record ParseResult =
  key :: "string option"
  data :: jsobject

definition Schema_parse :: "'dv config \<Rightarrow> utf8 \<Rightarrow> Schema \<Rightarrow> jsstring \<Rightarrow> (error + ParseResult) option" where
  "Schema_parse C U schema string' =
     (case StreamView_createFromString C string' of
        Inl e \<Rightarrow> Some (Inl e)
      | Inr streamView \<Rightarrow>
          (case codecs (idType schema) of
             None \<Rightarrow> Some (Inl (TypeError ''Cannot read property get of undefined''))
           | Some idCodec \<Rightarrow>
               (case codec_get C U idCodec streamView False of
                  None \<Rightarrow> None
                | Some (Inl e) \<Rightarrow> Some (Inl e)
                | Some (Inr (Num id', sv)) \<Rightarrow>
                    (case definition_of_id schema id' of
                       None \<Rightarrow> Some (Inl (IdNotDefined id'))
                     | Some definition \<Rightarrow>
                         (case Definition_get C U definition sv of
                            None \<Rightarrow> None
                          | Some (Inl e) \<Rightarrow> Some (Inl e)
                          | Some (Inr (values, sv')) \<Rightarrow>
                              Some (Inr \<lparr> key = d_key definition, data = values \<rparr>)))
                | Some (Inr (other, sv)) \<Rightarrow> Some (Inl Unmodelled))))"

text \<open>
  \<open>stringify\<close> returns the string, or the error thrown, and the \<open>Schema\<close> as the call
  leaves it: \<open>definition.getByteLength\<close> may have set the cached \<open>byteLength\<close> of the
  \<open>Definition\<close>.
\<close>

definition Schema_stringify ::
  "'dv config \<Rightarrow> utf8 \<Rightarrow> Schema \<Rightarrow> string \<Rightarrow> jsobject \<Rightarrow> (error + jsstring) \<times> Schema" where
  "Schema_stringify C U schema key' object =
     (case definitions schema key' of
        None \<Rightarrow> (Inl (KeyNotDefined key'), schema)
      | Some ref \<Rightarrow>
          (case definitionsById schema ref of
             None \<Rightarrow> (Inl (KeyNotDefined key'), schema)
           | Some definition \<Rightarrow>
               (case codecs (idType schema) of
                  None \<Rightarrow> (Inl (TypeError ''Cannot read property byteLength of undefined''), schema)
                | Some idCodec \<Rightarrow>
                    (case codec_byteLength idCodec of
                       None \<Rightarrow> (Inl Unmodelled, schema)
                     | Some idByteLength \<Rightarrow>
                         (case Definition_getByteLength U definition object of
                            (Inl e, d') \<Rightarrow>
                              (Inl e, schema \<lparr> definitionsById := (definitionsById schema) (ref \<mapsto> d') \<rparr>)
                          | (Inr byteLength, d') \<Rightarrow>
                              (let schema = schema \<lparr> definitionsById := (definitionsById schema) (ref \<mapsto> d') \<rparr>;
                                   streamView = StreamView_create C (idByteLength + byteLength);
                                   id' = (case d_id d' of None \<Rightarrow> Undefined | Some n \<Rightarrow> Num (Fin (of_nat n)))
                               in (case codec_set C U idCodec streamView id' False of
                                     Inl e \<Rightarrow> (Inl e, schema)
                                   | Inr sv \<Rightarrow>
                                       (case Definition_set C U d' sv object of
                                          Inl e \<Rightarrow> (Inl e, schema)
                                        | Inr sv' \<Rightarrow> (StreamView_toString C sv', schema)))))))))"



section \<open>Notions used in the properties\<close>

text \<open>
  The schemas that a program can reach through the exported functions: \<open>createSchema()\<close>
  makes one, \<open>define\<close> registers a definition in it, and a call of \<open>getByteLength\<close> on a
  registered \<open>Definition\<close>, by \<open>Schema.stringify\<close>, by \<open>Definition.stringify\<close> or
  directly, may set the cached \<open>byteLength\<close> of that \<open>Definition\<close>. \<open>parse\<close> changes
  nothing.
\<close>

inductive Schema_reachable :: "Schema \<Rightarrow> bool" where
  created: "Schema_reachable createSchema"
| defined: "Schema_reachable s \<Longrightarrow> Schema_reachable (snd (Schema_define s k fs))"
| measured:
    "Schema_reachable s \<Longrightarrow> definitionsById s i = Some d \<Longrightarrow>
     Schema_reachable
       (s \<lparr> definitionsById := (definitionsById s) (i \<mapsto> snd (Definition_getByteLength U d object)) \<rparr>)"

text \<open>
  The default wire format in the words of the specification: a message is the id of the
  definition as one \<open>uint8\<close> byte, followed by the fields of the definition encoded
  big-endian; \<open>wire_stringify\<close> writes one, \<open>wire_parse\<close> reads one.
\<close>

definition wire_stringify :: "'dv config \<Rightarrow> utf8 \<Rightarrow> Definition \<Rightarrow> jsobject \<Rightarrow> error + jsstring" where
  "wire_stringify C U d object =
     (case Definition_getByteLength U d object of
        (Inl e, d') \<Rightarrow> Inl e
      | (Inr byteLength, d') \<Rightarrow>
          (case IntegerCodec_set C 1 False (StreamView_create C (1 + byteLength))
                  (case d_id d of None \<Rightarrow> NaN | Some n \<Rightarrow> Fin (of_nat n)) False of
             Inl e \<Rightarrow> Inl e
           | Inr sv \<Rightarrow>
               (case Definition_set_loop C U (d_fields d) False sv object of
                  Inl e \<Rightarrow> Inl e
                | Inr sv' \<Rightarrow> StreamView_toString C sv')))"

definition wire_parse :: "'dv config \<Rightarrow> utf8 \<Rightarrow> Schema \<Rightarrow> jsstring \<Rightarrow> (error + ParseResult) option" where
  "wire_parse C U schema string' =
     (case StreamView_createFromString C string' of
        Inl e \<Rightarrow> Some (Inl e)
      | Inr streamView \<Rightarrow>
          (case Codec_get C (IntegerCodec 1 False) streamView False of
             Inl e \<Rightarrow> Some (Inl e)
           | Inr (id', sv) \<Rightarrow>
               (case definition_of_id schema id' of
                  None \<Rightarrow> Some (Inl (IdNotDefined id'))
                | Some d \<Rightarrow>
                    (case Definition_get_loop C U (d_fields d) False sv Map.empty of
                       None \<Rightarrow> None
                     | Some (Inl e) \<Rightarrow> Some (Inl e)
                     | Some (Inr (values, sv')) \<Rightarrow> Some (Inr \<lparr> key = d_key d, data = values \<rparr>)))))"



text \<open>
  A stream view of the polyfill over a byte array, and \<open>_codecs.uint8.set\<close> called for
  each byte of a list in turn.
\<close>

definition pview :: "byte_array \<Rightarrow> nat \<Rightarrow> DataViewPolyfill StreamView" where
  "pview bs off =
     \<lparr> dataView = \<lparr> buffer = bs, dv_byteOffset = 0, dv_byteLength = length bs \<rparr>, byteOffset = off \<rparr>"



text \<open>
  The bytes of a value: \<open>be_bytes n W\<close> is the \<open>n\<close>-byte two's-complement representation
  of \<open>W\<close>, most significant byte first; \<open>be_value\<close> reads such bytes back as a natural
  number; \<open>byte_order\<close> reverses the bytes for little-endian order; \<open>overwrite\<close> puts
  a list in place of the elements of another from an offset on.
\<close>

definition overwrite :: "'a list \<Rightarrow> nat \<Rightarrow> 'a list \<Rightarrow> 'a list" where
  "overwrite bytes off bs = take off bytes @ bs @ drop (off + length bs) bytes"

definition byte_order :: "bool \<Rightarrow> 'a list \<Rightarrow> 'a list" where
  "byte_order littleEndian bs = (if littleEndian then rev bs else bs)"

fun be_bytes :: "nat \<Rightarrow> int \<Rightarrow> int list" where
  "be_bytes 0 W = []"
| "be_bytes (Suc n) W = be_bytes n (W div 256) @ [W mod 256]"

definition be_value :: "int list \<Rightarrow> int" where
  "be_value bs = foldl (\<lambda>acc b. acc * 256 + b) 0 bs"


text \<open>
  The bits of an IEEE-754 value. \<open>float_word P s e M\<close> is the word with sign bit \<open>s\<close>,
  exponent field \<open>e\<close> and significand field \<open>M\<close>; \<open>sign_bit\<close>, \<open>exponent_bits\<close> and
  \<open>significand_bits\<close> are the three fields of a word, and \<open>float_decode\<close> is the number
  that \<open>FloatPolyfill.get\<close> makes of them. \<open>is_bytes\<close> holds of a list of byte values.
  \<open>float64_bytes\<close> and \<open>float32_bytes\<close> list the bytes of a word, most significant first.
\<close>

definition is_bytes :: "int list \<Rightarrow> bool" where
  "is_bytes bs = (\<forall>b \<in> set bs. 0 \<le> b \<and> b < 256)"

definition sign_bit :: "FloatPolyfill \<Rightarrow> int \<Rightarrow> int" where
  "sign_bit P W = W div 2 ^ (numExponentBits P + numSignificandBits P)"

definition exponent_bits :: "FloatPolyfill \<Rightarrow> int \<Rightarrow> int" where
  "exponent_bits P W = W div 2 ^ numSignificandBits P mod 2 ^ numExponentBits P"

definition significand_bits :: "FloatPolyfill \<Rightarrow> int \<Rightarrow> int" where
  "significand_bits P W = W mod 2 ^ numSignificandBits P"

definition float_decode :: "FloatPolyfill \<Rightarrow> int \<Rightarrow> jsnum" where
  "float_decode P W = FloatPolyfill_value P (sign_bit P W) (exponent_bits P W) (Some (significand_bits P W))"

definition float64_bytes :: "int \<Rightarrow> int \<Rightarrow> int \<Rightarrow> int list" where
  "float64_bytes s e M =
     (let E = e * 16 + M div 281474976710656
      in [E div 256 + s * 128, E mod 256, M div 1099511627776 mod 256, M div 4294967296 mod 256,
          M div 16777216 mod 256, M div 65536 mod 256, M div 256 mod 256, M mod 256])"

definition float32_bytes :: "int \<Rightarrow> int \<Rightarrow> int \<Rightarrow> int list" where
  "float32_bytes s e M =
     (let E = e * 128 + M div 65536
      in [E div 256 + s * 128, E mod 256, M div 256 mod 256, M mod 256])"

definition float_word :: "FloatPolyfill \<Rightarrow> int \<Rightarrow> int \<Rightarrow> int \<Rightarrow> int" where
  "float_word P s e M = (s * 2 ^ numExponentBits P + e) * 2 ^ numSignificandBits P + M"


chapter \<open>Properties\<close>

section \<open>Arithmetic of the number model\<close>

lemma pow2_pos: "0 < pow2 e"
  by (simp add: pow2_def)

lemma pow2_add: "pow2 (a + b) = pow2 a * pow2 b"
  by (simp add: pow2_def power_int_add)

lemma pow2_Suc: "pow2 (e + 1) = 2 * pow2 e"
  by (simp add: pow2_add) (simp add: pow2_def)

lemma pow2_pred: "pow2 (e - 1) = pow2 e / 2"
  using pow2_Suc [of "e - 1"] by simp

lemma pow2_mono: "e \<le> e' \<Longrightarrow> pow2 e \<le> pow2 e'"
  by (simp add: pow2_def power_int_increasing)

lemma log2_halve_bounds:
  "1 \<le> a \<Longrightarrow> pow2 (log2_halve a) \<le> a \<and> a < pow2 (log2_halve a + 1)"
proof (induction a rule: log2_halve.induct)
  case (1 a)
  show ?case
  proof (cases "2 \<le> a")
    case True
    then have "1 \<le> a / 2" by simp
    with 1 True have IH: "pow2 (log2_halve (a / 2)) \<le> a / 2 \<and> a / 2 < pow2 (log2_halve (a / 2) + 1)"
      by blast
    have eq: "log2_halve a = log2_halve (a / 2) + 1"
      using True by (subst log2_halve.simps) simp
    show ?thesis using IH unfolding eq pow2_Suc by simp
  next
    case False
    then have eq: "log2_halve a = 0" by (subst log2_halve.simps) simp
    show ?thesis using False 1(2) unfolding eq by (simp add: pow2_def)
  qed
qed

lemma log2_double_bounds:
  "0 < a \<Longrightarrow> a < 1 \<Longrightarrow> pow2 (log2_double a) \<le> a \<and> a < pow2 (log2_double a + 1)"
proof (induction a rule: log2_double.induct)
  case (1 a)
  have eq: "log2_double a = log2_double (a * 2) - 1"
    using 1(2,3) by (subst log2_double.simps) simp
  show ?case
  proof (cases "a * 2 < 1")
    case True
    with 1 have IH: "pow2 (log2_double (a * 2)) \<le> a * 2 \<and> a * 2 < pow2 (log2_double (a * 2) + 1)"
      by simp
    show ?thesis using IH unfolding eq pow2_Suc pow2_pred by simp
  next
    case False
    then have "log2_double (a * 2) = 0" by (subst log2_double.simps) simp
    then show ?thesis using False 1(2,3) unfolding eq by (simp add: pow2_def)
  qed
qed

lemma floor_log2_bounds: "0 < a \<Longrightarrow> pow2 (floor_log2 a) \<le> a \<and> a < pow2 (floor_log2 a + 1)"
  using log2_halve_bounds [of a] log2_double_bounds [of a]
  by (cases "1 \<le> a") (simp_all add: floor_log2_def)

lemma floor_log2_eq:
  assumes "pow2 e \<le> a" "a < pow2 (e + 1)"
  shows "floor_log2 a = e"
proof -
  have pos: "0 < a" using assms(1) pow2_pos [of e] by simp
  let ?f = "floor_log2 a"
  have f: "pow2 ?f \<le> a" "a < pow2 (?f + 1)" using floor_log2_bounds [OF pos] by simp_all
  show ?thesis
  proof (rule ccontr)
    assume "?f \<noteq> e"
    then consider "?f + 1 \<le> e" | "e + 1 \<le> ?f" by linarith
    then show False
    proof cases
      case 1
      then have "pow2 (?f + 1) \<le> pow2 e" by (rule pow2_mono)
      with f assms show False by simp
    next
      case 2
      then have "pow2 (e + 1) \<le> pow2 ?f" by (rule pow2_mono)
      with f assms show False by simp
    qed
  qed
qed

section \<open>Integer codecs\<close>

lemma minValue_le_maxValue: "IntegerCodec_minValue b s \<le> IntegerCodec_maxValue b s"
proof -
  have "(1::int) \<le> 2 ^ n" for n by simp
  from this [of "b * 8 - 1"] this [of "b * 8"] show ?thesis
    by (simp add: IntegerCodec_minValue_def IntegerCodec_maxValue_def Let_def)
qed

lemma IntegerCodec_set_below:
  "js_less value (Fin (of_int (IntegerCodec_minValue b s))) \<Longrightarrow>
   IntegerCodec_set C b s sv value le =
   Codec_set C (IntegerCodec b s) sv (Fin (of_int (IntegerCodec_minValue b s))) le"
  by (simp add: IntegerCodec_set_def Let_def)

lemma IntegerCodec_set_above:
  "js_less (Fin (of_int (IntegerCodec_maxValue b s))) value \<Longrightarrow>
   IntegerCodec_set C b s sv value le =
   Codec_set C (IntegerCodec b s) sv (Fin (of_int (IntegerCodec_maxValue b s))) le"
  using minValue_le_maxValue [of b s]
  by (cases "value") (auto simp add: IntegerCodec_set_def Let_def)

lemma IntegerCodec_set_bound:
  "IntegerCodec_set C b s sv (Fin (of_int (IntegerCodec_minValue b s))) le =
   Codec_set C (IntegerCodec b s) sv (Fin (of_int (IntegerCodec_minValue b s))) le"
  "IntegerCodec_set C b s sv (Fin (of_int (IntegerCodec_maxValue b s))) le =
   Codec_set C (IntegerCodec b s) sv (Fin (of_int (IntegerCodec_maxValue b s))) le"
  using minValue_le_maxValue [of b s]
  by (simp_all add: IntegerCodec_set_def Let_def)

lemma polyfill_min_max:
  "ip_minValue (IntegerPolyfill_new b s) = IntegerCodec_minValue b s"
  "ip_maxValue (IntegerPolyfill_new b s) = IntegerCodec_maxValue b s"
  by (simp_all add: IntegerPolyfill_new_def IntegerCodec_minValue_def IntegerCodec_maxValue_def Let_def)

lemma IntegerPolyfill_set_below:
  "js_less value (Fin (of_int (IntegerCodec_minValue b s))) \<Longrightarrow>
   IntegerPolyfill_set (IntegerPolyfill_new b s) bytes off value le =
   IntegerPolyfill_set (IntegerPolyfill_new b s) bytes off (Fin (of_int (IntegerCodec_minValue b s))) le"
  using minValue_le_maxValue [of b s]
  by (simp add: IntegerPolyfill_set_def IntegerPolyfill_clamp_def polyfill_min_max Let_def)

lemma IntegerPolyfill_set_above:
  "js_less (Fin (of_int (IntegerCodec_maxValue b s))) value \<Longrightarrow>
   IntegerPolyfill_set (IntegerPolyfill_new b s) bytes off value le =
   IntegerPolyfill_set (IntegerPolyfill_new b s) bytes off (Fin (of_int (IntegerCodec_maxValue b s))) le"
  using minValue_le_maxValue [of b s]
  by (cases "value") (auto simp add: IntegerPolyfill_set_def IntegerPolyfill_clamp_def polyfill_min_max Let_def)

lemma polyfills_Integer:
  "b \<in> {1, 2, 4} \<Longrightarrow>
   polyfills (codec_accessor (IntegerCodec b s)) = Some (IntegerP (IntegerPolyfill_new b s))"
  by auto

lemma IntegerCodec_set_room:
  assumes "b \<in> {1, 2, 4}" "byteOffset sv + b \<le> dv_byteLength (dataView sv)"
  shows "\<exists>sv'. IntegerCodec_set polyfill_config b s sv value le = Inr sv'"
  using assms(2) polyfills_Integer [OF assms(1), of s]
  by (simp add: IntegerCodec_set_def Let_def Codec_set_def DataViewPolyfill_set_def
        validateRange_def IntegerPolyfill_new_def polyfill_config_def)

text \<open>
  C5. For every integer codec (signed or unsigned, of 1, 2 or 4 bytes), every number
  and every data view, of the platform or of the polyfill: for a number below the
  minimum of the type \<open>IntegerCodec.set\<close> calls the setter of the data view with the
  minimum, and so encodes the number as it encodes the minimum; for a number above the
  maximum it calls the setter with the maximum. \<open>IntegerPolyfill.set\<close> clamps in the same
  way. The codec raises no error of its own: its result is the result of the setter,
  and with the data view of the polyfill that is no error when the stream view has room
  for the bytes of the codec.
\<close>

theorem IntegerCodec_set_clamps:
  fixes C :: "'dv config" and sv :: "'dv StreamView" and svp :: "DataViewPolyfill StreamView"
  assumes "byteLength \<in> {1, 2, 4}"
  shows "(js_less v (Fin (of_int (IntegerCodec_minValue byteLength signed))) \<longrightarrow>
            IntegerCodec_set C byteLength signed sv v le =
              Codec_set C (IntegerCodec byteLength signed) sv
                (Fin (of_int (IntegerCodec_minValue byteLength signed))) le
          \<and> IntegerCodec_set C byteLength signed sv v le =
              IntegerCodec_set C byteLength signed sv (Fin (of_int (IntegerCodec_minValue byteLength signed))) le
          \<and> IntegerPolyfill_set (IntegerPolyfill_new byteLength signed) bytes off v le =
              IntegerPolyfill_set (IntegerPolyfill_new byteLength signed) bytes off
                (Fin (of_int (IntegerCodec_minValue byteLength signed))) le)
       \<and> (js_less (Fin (of_int (IntegerCodec_maxValue byteLength signed))) v \<longrightarrow>
            IntegerCodec_set C byteLength signed sv v le =
              Codec_set C (IntegerCodec byteLength signed) sv
                (Fin (of_int (IntegerCodec_maxValue byteLength signed))) le
          \<and> IntegerCodec_set C byteLength signed sv v le =
              IntegerCodec_set C byteLength signed sv (Fin (of_int (IntegerCodec_maxValue byteLength signed))) le
          \<and> IntegerPolyfill_set (IntegerPolyfill_new byteLength signed) bytes off v le =
              IntegerPolyfill_set (IntegerPolyfill_new byteLength signed) bytes off
                (Fin (of_int (IntegerCodec_maxValue byteLength signed))) le)
       \<and> (byteOffset svp + byteLength \<le> dv_byteLength (dataView svp) \<longrightarrow>
            (\<exists>sv'. IntegerCodec_set polyfill_config byteLength signed svp v le = Inr sv'))"
proof (intro conjI impI)
  assume "byteOffset svp + byteLength \<le> dv_byteLength (dataView svp)"
  with assms show "\<exists>sv'. IntegerCodec_set polyfill_config byteLength signed svp v le = Inr sv'"
    by (rule IntegerCodec_set_room)
qed (simp_all only: IntegerCodec_set_below IntegerCodec_set_above IntegerCodec_set_bound
       IntegerPolyfill_set_below IntegerPolyfill_set_above)


lemma replicate_numeral_Cons: "replicate (numeral k) x = x # replicate (pred_numeral k) x"
  by (simp add: numeral_eq_Suc)

lemma IntegerPolyfill_set_loop_numeral:
  "IntegerPolyfill_set_loop bytes off i increment (numeral k) value =
     IntegerPolyfill_set_loop (js_update bytes (nat (int off + i)) (ToInt32 value AND 255))
       off (i + increment) increment (pred_numeral k) (Fin (of_int (drop_bit 8 (ToInt32 value))))"
  by (simp add: numeral_eq_Suc)

lemmas IntegerCodec_eval =
  IntegerCodec_set_def Let_def Codec_set_def DataViewPolyfill_set_def validateRange_def
  IntegerPolyfill_new_def StreamView_create_def DataViewPolyfill_new_def polyfill_config_def
  ArrayBufferPolyfill_new_def IntegerCodec_minValue_def IntegerCodec_maxValue_def
  IntegerPolyfill_set_def IntegerPolyfill_clamp_def ToInt32_real_def ToInt32_int_def trunc_def
  IntegerPolyfill_set_loop_numeral replicate_numeral_Cons js_update_def

text \<open>
  The theorem at the two inputs of the specification, with the data view of the
  polyfill and with a data view that stores a number modulo 256, as \<open>setUint8\<close> of the
  platform does: in both, 256 and -1 as \<open>uint8\<close> are encoded as 255 and 0 are, in the
  bytes 255 and 0.
\<close>

theorem IntegerCodec_set_clamps_witness:
  "IntegerCodec_set polyfill_config 1 False (StreamView_create polyfill_config 1) (Fin 256) False =
     IntegerCodec_set polyfill_config 1 False (StreamView_create polyfill_config 1) (Fin 255) False
   \<and> IntegerCodec_set polyfill_config 1 False (StreamView_create polyfill_config 1) (Fin (- 1)) False =
     IntegerCodec_set polyfill_config 1 False (StreamView_create polyfill_config 1) (Fin 0) False
   \<and> (\<exists>sv'. IntegerCodec_set polyfill_config 1 False (StreamView_create polyfill_config 1) (Fin 256) False = Inr sv')
   \<and> IntegerCodec_set polyfill_config 1 False (StreamView_create polyfill_config 1) (Fin 256) False =
     Inr \<lparr> dataView = \<lparr> buffer = [Some 255], dv_byteOffset = 0, dv_byteLength = 1 \<rparr>, byteOffset = 1 \<rparr>
   \<and> IntegerCodec_set polyfill_config 1 False (StreamView_create polyfill_config 1) (Fin (- 1)) False =
     Inr \<lparr> dataView = \<lparr> buffer = [Some 0], dv_byteOffset = 0, dv_byteLength = 1 \<rparr>, byteOffset = 1 \<rparr>
   \<and> (let W = \<lparr> new_DataView = (\<lambda>n. replicate n (0::int)), byteLength_of = length,
                 getter = (\<lambda>v a i le. Inr (Fin (of_int (v ! i)))),
                 setter = (\<lambda>v a i x le. Inr (v[i := ToInt32 x mod 256])) \<rparr>
      in IntegerCodec_set W 1 False (StreamView_create W 1) (Fin 256) False =
           Inr \<lparr> dataView = [255], byteOffset = 1 \<rparr>
       \<and> IntegerCodec_set W 1 False (StreamView_create W 1) (Fin (- 1)) False =
           Inr \<lparr> dataView = [0], byteOffset = 1 \<rparr>
       \<and> Codec_set W (IntegerCodec 1 False) (StreamView_create W 1) (Fin 256) False =
           Inr \<lparr> dataView = [0], byteOffset = 1 \<rparr>)"
proof -
  define W :: "int list config" where
    "W = \<lparr> new_DataView = (\<lambda>n. replicate n (0::int)), byteLength_of = length,
           getter = (\<lambda>v a i le. Inr (Fin (of_int (v ! i)))),
           setter = (\<lambda>v a i x le. Inr (v[i := ToInt32 x mod 256])) \<rparr>"
  let ?P = "StreamView_create polyfill_config 1"
  have b: "(1::nat) \<in> {1, 2, 4}" by simp
  have above: "js_less (Fin (of_int (IntegerCodec_maxValue 1 False))) (Fin 256)"
    by (simp add: IntegerCodec_maxValue_def)
  have below: "js_less (Fin (- 1)) (Fin (of_int (IntegerCodec_minValue 1 False)))"
    by (simp add: IntegerCodec_minValue_def)
  have room: "byteOffset ?P + 1 \<le> dv_byteLength (dataView ?P)"
    by (simp add: StreamView_create_def DataViewPolyfill_new_def ArrayBufferPolyfill_new_def
        polyfill_config_def)
  have max: "IntegerCodec_maxValue 1 False = 255" by (simp add: IntegerCodec_maxValue_def)
  have min: "IntegerCodec_minValue 1 False = 0" by (simp add: IntegerCodec_minValue_def)
  note hi = IntegerCodec_set_clamps [OF b, where signed = False and v = "Fin 256"
      and C = polyfill_config and sv = ?P and svp = ?P and le = False and bytes = "[None]" and off = 0]
  note lo = IntegerCodec_set_clamps [OF b, where signed = False and v = "Fin (- 1)"
      and C = polyfill_config and sv = ?P and svp = ?P and le = False and bytes = "[None]" and off = 0]
  note hiW = IntegerCodec_set_clamps [OF b, where signed = False and v = "Fin 256"
      and C = W and sv = "StreamView_create W 1" and svp = ?P and le = False and bytes = "[None]" and off = 0]
  note loW = IntegerCodec_set_clamps [OF b, where signed = False and v = "Fin (- 1)"
      and C = W and sv = "StreamView_create W 1" and svp = ?P and le = False and bytes = "[None]" and off = 0]
  have 1: "IntegerCodec_set polyfill_config 1 False ?P (Fin 256) False =
     IntegerCodec_set polyfill_config 1 False ?P (Fin 255) False"
    using hi above unfolding max of_int_numeral by blast
  have 2: "IntegerCodec_set polyfill_config 1 False ?P (Fin (- 1)) False =
     IntegerCodec_set polyfill_config 1 False ?P (Fin 0) False"
    using lo below unfolding min of_int_0 by blast
  have 3: "\<exists>sv'. IntegerCodec_set polyfill_config 1 False ?P (Fin 256) False = Inr sv'"
    using hi room by blast
  have 4: "IntegerCodec_set polyfill_config 1 False ?P (Fin 256) False =
     Inr \<lparr> dataView = \<lparr> buffer = [Some 255], dv_byteOffset = 0, dv_byteLength = 1 \<rparr>, byteOffset = 1 \<rparr>"
    by (simp add: IntegerCodec_eval)
  have 5: "IntegerCodec_set polyfill_config 1 False ?P (Fin (- 1)) False =
     Inr \<lparr> dataView = \<lparr> buffer = [Some 0], dv_byteOffset = 0, dv_byteLength = 1 \<rparr>, byteOffset = 1 \<rparr>"
    by (simp add: IntegerCodec_eval)
  have "IntegerCodec_set W 1 False (StreamView_create W 1) (Fin 256) False =
          Codec_set W (IntegerCodec 1 False) (StreamView_create W 1) (Fin 255) False"
    using hiW above unfolding max of_int_numeral by blast
  then have 6: "IntegerCodec_set W 1 False (StreamView_create W 1) (Fin 256) False =
          Inr \<lparr> dataView = [255], byteOffset = 1 \<rparr>"
    by (simp add: Codec_set_def StreamView_create_def W_def ToInt32_real_def ToInt32_int_def trunc_def)
  have "IntegerCodec_set W 1 False (StreamView_create W 1) (Fin (- 1)) False =
          Codec_set W (IntegerCodec 1 False) (StreamView_create W 1) (Fin 0) False"
    using loW below unfolding min of_int_0 by blast
  then have 7: "IntegerCodec_set W 1 False (StreamView_create W 1) (Fin (- 1)) False =
          Inr \<lparr> dataView = [0], byteOffset = 1 \<rparr>"
    by (simp add: Codec_set_def StreamView_create_def W_def ToInt32_real_def ToInt32_int_def trunc_def)
  have 8: "Codec_set W (IntegerCodec 1 False) (StreamView_create W 1) (Fin 256) False =
          Inr \<lparr> dataView = [0], byteOffset = 1 \<rparr>"
    by (simp add: Codec_set_def StreamView_create_def W_def ToInt32_real_def ToInt32_int_def trunc_def)
  show ?thesis
    unfolding Let_def W_def [symmetric] using 1 2 3 4 5 6 7 8 by blast
qed


section \<open>Evaluation on the data view of the polyfill\<close>

lemma StreamView_create_pview: "StreamView_create polyfill_config n = pview (replicate n None) 0"
  by (simp add: StreamView_create_def pview_def DataViewPolyfill_new_def ArrayBufferPolyfill_new_def
      polyfill_config_def)

lemma and_255: "(x::int) AND 255 = x mod 256"
  using take_bit_eq_mask [of 8 x] by (simp add: take_bit_eq_mod mask_eq_exp_minus_1)

lemma ToInt32_int_id: "- (2 ^ 31) \<le> n \<Longrightarrow> n < 2 ^ 31 \<Longrightarrow> ToInt32_int n = n"
proof -
  assume a: "- (2 ^ 31) \<le> n" "n < 2 ^ 31"
  show ?thesis
  proof (cases "0 \<le> n")
    case True
    then have "n mod 2 ^ 32 = n" using a by simp
    then show ?thesis using a by (simp add: ToInt32_int_def Let_def)
  next
    case False
    have "n mod 2 ^ 32 = (n + 2 ^ 32) mod 2 ^ 32" by simp
    also have "\<dots> = n + 2 ^ 32" using a False by (intro mod_pos_pos_trivial) auto
    finally have "n mod 2 ^ 32 = n + 2 ^ 32" .
    then show ?thesis using False a by (simp add: ToInt32_int_def Let_def)
  qed
qed

lemma trunc_of_int [simp]: "trunc (of_int n) = n"
  by (simp add: trunc_def)


lemma IntegerPolyfill_get_loop_numeral:
  "IntegerPolyfill_get_loop bytes off i increment (numeral k) scale value =
     IntegerPolyfill_get_loop bytes off (i + increment) increment (pred_numeral k) (scale * 256)
       (add_scaled value (js_nth bytes (nat (int off + i))) scale)"
  by (simp add: numeral_eq_Suc)

lemmas polyfill_eval =
  IntegerCodec_eval Codec_get_def DataViewPolyfill_get_def IntegerPolyfill_get_def js_nth_def
  uint8_get_def uint8_set_def uint32_get_def uint32_set_def IntegerPolyfill_get_loop_numeral

lemmas Schema_eval =
  Schema_parse_def Schema_stringify_def StreamView_createFromString_def Schema_define_def
  createSchema_def Schema_new_def Field_new_def isValidType_def codecs_def Definition_new_def
  definition_of_id_def definition_of_key_def Definition_get_def Definition_set_def littleEndian_of_def
  Definition_getByteLength_def StreamView_toString_def fromCharCode_def property_def Let_def


section \<open>BooleanArrayCodec\<close>









section \<open>Definition.getByteLength\<close>







section \<open>Schema\<close>

lemma Schema_define_invariant:
  assumes "idType s = ''uint8''" "\<forall>i d. definitionsById s i = Some d \<longrightarrow> d_littleEndian d = None"
  shows "idType (snd (Schema_define s k fs)) = ''uint8''"
    and "\<forall>i d. definitionsById (snd (Schema_define s k fs)) i = Some d \<longrightarrow> d_littleEndian d = None"
  using assms
  by (auto simp: Schema_define_def Let_def Definition_new_def split: sum.splits)

lemma Definition_getByteLength_littleEndian:
  "d_littleEndian (snd (Definition_getByteLength U d object)) = d_littleEndian d"
  by (auto simp: Definition_getByteLength_def split: option.splits sum.splits)

lemma Definition_getByteLength_fields:
  "d_fields (snd (Definition_getByteLength U d object)) = d_fields d"
  "d_id (snd (Definition_getByteLength U d object)) = d_id d"
  "d_key (snd (Definition_getByteLength U d object)) = d_key d"
  by (auto simp: Definition_getByteLength_def split: option.splits sum.splits)

lemma Schema_stringify_state:
  "snd (Schema_stringify C U s k object) =
     (case definitions s k of
        None \<Rightarrow> s
      | Some ref \<Rightarrow>
          (case definitionsById s ref of
             None \<Rightarrow> s
           | Some d \<Rightarrow>
               (case codecs (idType s) of
                  None \<Rightarrow> s
                | Some c \<Rightarrow>
                    (case codec_byteLength c of
                       None \<Rightarrow> s
                     | Some n \<Rightarrow>
                         s \<lparr> definitionsById :=
                               (definitionsById s) (ref \<mapsto> snd (Definition_getByteLength U d object)) \<rparr>))))"
  by (simp add: Schema_stringify_def Let_def split: option.splits sum.splits prod.splits)

lemma Schema_stringify_reachable:
  "Schema_reachable s \<Longrightarrow> Schema_reachable (snd (Schema_stringify C U s k object))"
  unfolding Schema_stringify_state
  by (auto split: option.splits intro: Schema_reachable.measured)

lemma Schema_reachable_invariant:
  "Schema_reachable s \<Longrightarrow>
   idType s = ''uint8'' \<and> (\<forall>i d. definitionsById s i = Some d \<longrightarrow> d_littleEndian d = None)"
proof (induction rule: Schema_reachable.induct)
  case created
  show ?case by (simp add: createSchema_def Schema_new_def)
next
  case (defined s k fs)
  then show ?case using Schema_define_invariant [of s k fs] by blast
next
  case (measured s i d U object)
  then show ?case by (auto simp: Definition_getByteLength_littleEndian)
qed

lemma codecs_uint8: "codecs ''uint8'' = Some (IntegerCodec 1 False)"
  by (simp add: codecs_def)

lemma Schema_stringify_wire:
  assumes "idType s = ''uint8''" "definition_of_key s k = Some d" "d_littleEndian d = None"
  shows "fst (Schema_stringify C U s k object) = wire_stringify C U d object"
proof -
  obtain ref where ref: "definitions s k = Some ref" "definitionsById s ref = Some d"
    using assms(2) by (auto simp: definition_of_key_def split: option.splits)
  obtain r d' where g: "Definition_getByteLength U d object = (r, d')" by fastforce
  have d': "d_fields d' = d_fields d" "d_id d' = d_id d" "d_littleEndian d' = d_littleEndian d"
    using Definition_getByteLength_fields [of U d object]
      Definition_getByteLength_littleEndian [of U d object] g by simp_all
  show ?thesis
    using ref assms(1,3) g d'
    by (cases r)
      (auto simp: Schema_stringify_def wire_stringify_def codecs_uint8 Let_def Definition_set_def
        littleEndian_of_def split: sum.splits option.splits)
qed

lemma Schema_parse_wire:
  assumes "idType s = ''uint8''" "\<forall>i d. definitionsById s i = Some d \<longrightarrow> d_littleEndian d = None"
  shows "Schema_parse C U s str = wire_parse C U s str"
proof -
  have le: "definition_of_id s i = Some d \<Longrightarrow> littleEndian_of d = False" for i d
    using assms(2) by (auto simp: definition_of_id_def littleEndian_of_def split: jsnum.splits if_splits)
  show ?thesis
    using assms(1)
    by (auto simp: Schema_parse_def wire_parse_def codecs_uint8 Definition_get_def le
        split: sum.splits option.splits prod.splits)
qed

text \<open>
  C10. In every schema reached from \<open>createSchema()\<close> by \<open>define\<close>, \<open>stringify\<close>,
  \<open>parse\<close> and calls of \<open>getByteLength\<close>, with every data view: the id codec is
  \<open>uint8\<close>, no registered \<open>Definition\<close> has a \<open>littleEndian\<close> flag, \<open>stringify\<close> of a
  registered key produces the default wire format and \<open>parse\<close> consumes it (one \<open>uint8\<close>
  id byte, then the fields big-endian); and \<open>define\<close> and \<open>stringify\<close> lead to such a
  schema again, so no call changes the id width or the endianness.
\<close>

theorem createSchema_default_format:
  assumes "Schema_reachable s"
  shows "codecs (idType s) = Some (IntegerCodec 1 False) \<and>
         (\<forall>i d. definitionsById s i = Some d \<longrightarrow> d_littleEndian d = None) \<and>
         (\<forall>k d. definition_of_key s k = Some d \<longrightarrow>
            fst (Schema_stringify C U s k object) = wire_stringify C U d object) \<and>
         Schema_parse C U s str = wire_parse C U s str \<and>
         Schema_reachable (snd (Schema_define s k' fs)) \<and>
         Schema_reachable (snd (Schema_stringify C U s k'' object'))"
proof -
  note inv = Schema_reachable_invariant [OF assms]
  have key: "definition_of_key s k = Some d \<Longrightarrow> d_littleEndian d = None" for k d
    using inv by (auto simp: definition_of_key_def split: option.splits)
  show ?thesis
    using inv assms
    by (auto simp: codecs_uint8 Schema_stringify_wire key Schema_parse_wire
        Schema_stringify_reachable intro: Schema_reachable.defined)
qed

text \<open>
  The theorem at the schema in which \<open>define("a", [{key: "x", type: "uint16"}])\<close> has been
  called: with the data view of the polyfill, \<open>stringify("a", {x: 258})\<close> is the id byte
  1 followed by the big-endian bytes 1 and 2, and \<open>parse\<close> of that string gives the key
  and the object back.
\<close>

theorem createSchema_default_format_witness:
  "\<forall>U. (let s = snd (Schema_define createSchema ''a''
                    [\<lparr> fo_key = Some ''x'', fo_type = Some ''uint16'', fo_valueType = None \<rparr>])
        in Schema_reachable s \<and>
           codecs (idType s) = Some (IntegerCodec 1 False) \<and>
           (\<exists>d. definition_of_key s ''a'' = Some d \<and> definitionsById s 1 = Some d \<and>
                d_littleEndian d = None \<and>
                fst (Schema_stringify polyfill_config U s ''a'' [''x'' \<mapsto> Num (Fin 258)])
                  = wire_stringify polyfill_config U d [''x'' \<mapsto> Num (Fin 258)]) \<and>
           fst (Schema_stringify polyfill_config U s ''a'' [''x'' \<mapsto> Num (Fin 258)]) = Inr [1, 1, 2] \<and>
           Schema_parse polyfill_config U s [1, 1, 2] = wire_parse polyfill_config U s [1, 1, 2] \<and>
           Schema_parse polyfill_config U s [1, 1, 2]
             = Some (Inr \<lparr> key = Some ''a'', data = [''x'' \<mapsto> Num (Fin 258)] \<rparr>))"
proof (intro allI)
  fix U
  define s where "s = snd (Schema_define createSchema ''a''
                    [\<lparr> fo_key = Some ''x'', fo_type = Some ''uint16'', fo_valueType = None \<rparr>])"
  define d where "d = Definition_new
      [\<lparr> f_key = ''x'', f_type = ''uint16'', f_valueType = None, f_codec = IntegerCodec 2 False \<rparr>]
      (Some 1) (Some ''a'') None"
  have r: "Schema_reachable s"
    unfolding s_def by (intro Schema_reachable.defined Schema_reachable.created)
  have k: "definition_of_key s ''a'' = Some d" "definitionsById s 1 = Some d"
    by (simp_all add: s_def d_def Schema_eval)
  note t = createSchema_default_format [OF r, of polyfill_config U "[''x'' \<mapsto> Num (Fin 258)]"
      "[1, 1, 2]" "''a''" "[]" "''a''" "[''x'' \<mapsto> Num (Fin 258)]"]
  have 1: "codecs (idType s) = Some (IntegerCodec 1 False)" using t by blast
  have 2: "d_littleEndian d = None" using t k(2) by blast
  have 3: "fst (Schema_stringify polyfill_config U s ''a'' [''x'' \<mapsto> Num (Fin 258)])
             = wire_stringify polyfill_config U d [''x'' \<mapsto> Num (Fin 258)]"
    using t k(1) by blast
  have 4: "Schema_parse polyfill_config U s [1, 1, 2] = wire_parse polyfill_config U s [1, 1, 2]"
    using t by blast
  have 5: "fst (Schema_stringify polyfill_config U s ''a'' [''x'' \<mapsto> Num (Fin 258)]) = Inr [1, 1, 2]"
    by (simp add: s_def Schema_eval polyfill_eval)
  have 6: "Schema_parse polyfill_config U s [1, 1, 2]
             = Some (Inr \<lparr> key = Some ''a'', data = [''x'' \<mapsto> Num (Fin 258)] \<rparr>)"
    by (simp add: s_def Schema_eval polyfill_eval)
  show "let s = snd (Schema_define createSchema ''a''
                    [\<lparr> fo_key = Some ''x'', fo_type = Some ''uint16'', fo_valueType = None \<rparr>])
        in Schema_reachable s \<and>
           codecs (idType s) = Some (IntegerCodec 1 False) \<and>
           (\<exists>d. definition_of_key s ''a'' = Some d \<and> definitionsById s 1 = Some d \<and>
                d_littleEndian d = None \<and>
                fst (Schema_stringify polyfill_config U s ''a'' [''x'' \<mapsto> Num (Fin 258)])
                  = wire_stringify polyfill_config U d [''x'' \<mapsto> Num (Fin 258)]) \<and>
           fst (Schema_stringify polyfill_config U s ''a'' [''x'' \<mapsto> Num (Fin 258)]) = Inr [1, 1, 2] \<and>
           Schema_parse polyfill_config U s [1, 1, 2] = wire_parse polyfill_config U s [1, 1, 2] \<and>
           Schema_parse polyfill_config U s [1, 1, 2]
             = Some (Inr \<lparr> key = Some ''a'', data = [''x'' \<mapsto> Num (Fin 258)] \<rparr>)"
    unfolding Let_def s_def [symmetric] using r 1 2 3 4 5 6 k by blast
qed




section \<open>Bytes written by the integer polyfill\<close>

lemma ToInt32_int_mod_256: "ToInt32_int n mod 256 = n mod 256"
proof -
  have "(n mod 2 ^ 32) mod 256 = n mod 256"
    by (rule mod_mod_cancel) simp
  moreover have "(a - 4294967296) mod 256 = a mod 256" for a :: int
  proof -
    have "(a - 4294967296) mod 256 = (a - 4294967296 mod 256) mod 256"
      by (rule mod_diff_right_eq [symmetric])
    then show ?thesis by simp
  qed
  ultimately show ?thesis by (simp add: ToInt32_int_def Let_def)
qed

lemma window:
  assumes "off + n \<le> length bytes"
  obtains pre mid post where "bytes = pre @ mid @ post" "length pre = off" "length mid = n"
proof
  show "bytes = take off bytes @ take n (drop off bytes) @ drop (off + n) bytes"
    by (metis append_take_drop_id drop_drop add.commute)
  show "length (take off bytes) = off" using assms by simp
  show "length (take n (drop off bytes)) = n" using assms by simp
qed

lemma overwrite_window: "length pre = off \<Longrightarrow> length mid = length bs \<Longrightarrow> overwrite (pre @ mid @ post) off bs = pre @ bs @ post"
  by (simp add: overwrite_def)

lemma length4: "length xs = 4 \<Longrightarrow> \<exists>a b c d. xs = [a, b, c, d]"
  by (auto simp: numeral_eq_Suc length_Suc_conv)

lemma length8: "length xs = 8 \<Longrightarrow> \<exists>a b c d e f g h. xs = [a, b, c, d, e, f, g, h]"
  by (auto simp: numeral_eq_Suc length_Suc_conv)

lemma list_update_Cons_numeral: "(x # xs)[numeral k := v] = x # xs[pred_numeral k := v]"
  by (simp add: numeral_eq_Suc)

lemma nat_int_add_numeral [simp]: "nat (int a + numeral k) = a + numeral k"
  by (simp add: nat_add_distrib)

lemma nat_int_add_1 [simp]: "nat (int a + 1) = a + 1"
  by (simp add: nat_add_distrib)

lemma chain8_BE:
  assumes "off + 8 \<le> length bytes"
  shows "bytes[off + 7 := b7, off + 6 := b6, off + 5 := b5, off + 4 := b4, off + 3 := b3,
               off + 2 := b2, off + 1 := b1, off := b0]
         = overwrite bytes off [b0, b1, b2, b3, b4, b5, b6, b7]"
proof -
  obtain pre mid post where b: "bytes = pre @ mid @ post" "length pre = off" "length mid = 8"
    using window [OF assms] by blast
  obtain a0 a1 a2 a3 a4 a5 a6 a7 where mid: "mid = [a0, a1, a2, a3, a4, a5, a6, a7]"
    using length8 [OF b(3)] by blast
  show ?thesis unfolding b(1) b(2) [symmetric] mid
    by (simp add: list_update_append list_update_Cons_numeral overwrite_def)
qed

lemma chain8_LE:
  assumes "off + 8 \<le> length bytes"
  shows "bytes[off := b7, off + 1 := b6, off + 2 := b5, off + 3 := b4, off + 4 := b3,
               off + 5 := b2, off + 6 := b1, off + 7 := b0]
         = overwrite bytes off [b7, b6, b5, b4, b3, b2, b1, b0]"
proof -
  obtain pre mid post where b: "bytes = pre @ mid @ post" "length pre = off" "length mid = 8"
    using window [OF assms] by blast
  obtain a0 a1 a2 a3 a4 a5 a6 a7 where mid: "mid = [a0, a1, a2, a3, a4, a5, a6, a7]"
    using length8 [OF b(3)] by blast
  show ?thesis unfolding b(1) b(2) [symmetric] mid
    by (simp add: list_update_append list_update_Cons_numeral overwrite_def)
qed

lemma chain4_BE:
  assumes "off + 4 \<le> length bytes"
  shows "bytes[off + 3 := b3, off + 2 := b2, off + 1 := b1, off := b0]
         = overwrite bytes off [b0, b1, b2, b3]"
proof -
  obtain pre mid post where b: "bytes = pre @ mid @ post" "length pre = off" "length mid = 4"
    using window [OF assms] by blast
  obtain a0 a1 a2 a3 where mid: "mid = [a0, a1, a2, a3]"
    using length4 [OF b(3)] by blast
  show ?thesis unfolding b(1) b(2) [symmetric] mid
    by (simp add: list_update_append list_update_Cons_numeral overwrite_def)
qed

lemma chain4_LE:
  assumes "off + 4 \<le> length bytes"
  shows "bytes[off := b3, off + 1 := b2, off + 2 := b1, off + 3 := b0]
         = overwrite bytes off [b3, b2, b1, b0]"
proof -
  obtain pre mid post where b: "bytes = pre @ mid @ post" "length pre = off" "length mid = 4"
    using window [OF assms] by blast
  obtain a0 a1 a2 a3 where mid: "mid = [a0, a1, a2, a3]"
    using length4 [OF b(3)] by blast
  show ?thesis unfolding b(1) b(2) [symmetric] mid
    by (simp add: list_update_append list_update_Cons_numeral overwrite_def)
qed

lemma be_bytes_numeral: "be_bytes (numeral k) W = be_bytes (pred_numeral k) (W div 256) @ [W mod 256]"
  by (simp add: numeral_eq_Suc)

lemma length_be_bytes [simp]: "length (be_bytes n W) = n"
  by (induction n arbitrary: W) simp_all

lemma div_split: "0 < (K::int) \<Longrightarrow> (A * K + B) div K = A + B div K"
  by simp

lemma mod_split: "(A * K + B) mod K = B mod (K::int)"
  by simp

lemma be_bytes_append: "be_bytes (n + k) W = be_bytes k (W div 256 ^ n) @ be_bytes n W"
proof (induction n arbitrary: W)
  case 0
  show ?case by simp
next
  case (Suc n)
  have "W div 256 div 256 ^ n = W div 256 ^ Suc n"
    by (simp add: zdiv_zmult2_eq)
  then show ?case using Suc [of "W div 256"] by simp
qed

lemma be_bytes_high: "be_bytes n (A * 256 ^ n + B) = be_bytes n B"
proof (induction n arbitrary: A B)
  case 0
  show ?case by simp
next
  case (Suc n)
  have eq: "A * 256 ^ Suc n + B = (A * 256 ^ n) * 256 + B" by simp
  have "(A * 256 ^ Suc n + B) div 256 = A * 256 ^ n + B div 256"
    unfolding eq by (rule div_split) simp
  moreover have "(A * 256 ^ Suc n + B) mod 256 = B mod 256"
    unfolding eq by (rule mod_split)
  ultimately show ?case using Suc [of A "B div 256"] by (simp del: power_Suc)
qed

lemma div_div_numeral: "(a::int) div numeral m div numeral n = a div numeral (m * n)"
  unfolding numeral_times_numeral [symmetric] by (rule zdiv_zmult2_eq [symmetric]) simp

lemma be_bytes_2: "be_bytes 2 X = [X div 256 mod 256, X mod 256]"
  by (simp add: be_bytes_numeral)

lemma ToInt32_int_cong: "\<exists>j. ToInt32_int x = x + 4294967296 * j"
proof -
  have m: "x mod 4294967296 = x - x div 4294967296 * 4294967296"
    by (simp add: minus_div_mult_eq_mod)
  show ?thesis
  proof (cases "x mod 2 ^ 32 \<ge> 2 ^ 31")
    case True
    then have "ToInt32_int x = x mod 4294967296 - 4294967296"
      by (simp add: ToInt32_int_def Let_def)
    also have "\<dots> = x + 4294967296 * (- (x div 4294967296) - 1)"
      unfolding m by (simp add: algebra_simps)
    finally show ?thesis by blast
  next
    case False
    then have "ToInt32_int x = x mod 4294967296"
      by (simp add: ToInt32_int_def Let_def)
    also have "\<dots> = x + 4294967296 * (- (x div 4294967296))"
      unfolding m by (simp add: algebra_simps)
    finally show ?thesis by blast
  qed
qed

lemma ToInt32_int_div_mod:
  assumes "k + m \<le> 32"
  shows "ToInt32_int x div 2 ^ k mod 2 ^ m = x div 2 ^ k mod 2 ^ m"
proof -
  obtain j where j: "ToInt32_int x = x + 4294967296 * j" using ToInt32_int_cong by blast
  have p: "(4294967296::int) = 2 ^ (32 - k) * 2 ^ k"
    using assms by (simp flip: power_add)
  have "(x + 4294967296 * j) div 2 ^ k = x div 2 ^ k + 2 ^ (32 - k) * j"
  proof -
    have "(x + (2 ^ (32 - k) * j) * 2 ^ k) div 2 ^ k = x div 2 ^ k + 2 ^ (32 - k) * j"
      by simp
    then show ?thesis unfolding p by (simp add: mult.assoc mult.left_commute mult.commute)
  qed
  moreover have "(x div 2 ^ k + 2 ^ (32 - k) * j) mod 2 ^ m = x div 2 ^ k mod 2 ^ m"
  proof -
    have "(2::int) ^ m dvd 2 ^ (32 - k)" using assms by (intro le_imp_power_dvd) simp
    then obtain c where c: "(2::int) ^ (32 - k) = 2 ^ m * c" by (auto simp: dvd_def)
    have "(x div 2 ^ k + 2 ^ m * (c * j)) mod 2 ^ m = x div 2 ^ k mod 2 ^ m"
      by (rule mod_mult_self2)
    then show ?thesis unfolding c by (simp only: mult.assoc)
  qed
  ultimately show ?thesis by (simp add: j)
qed

lemma ToInt32_int_div_256: "ToInt32_int x div 256 mod 256 = x div 256 mod 256"
  using ToInt32_int_div_mod [of 8 8 x] by simp

lemma ToInt32_int_div_65536: "ToInt32_int x div 65536 mod 256 = x div 65536 mod 256"
  using ToInt32_int_div_mod [of 16 8 x] by simp

lemma ToInt32_int_div_16777216: "ToInt32_int x div 16777216 mod 256 = x div 16777216 mod 256"
  using ToInt32_int_div_mod [of 24 8 x] by simp

lemmas ToInt32_int_div_numerals = ToInt32_int_div_256 ToInt32_int_div_65536 ToInt32_int_div_16777216

lemma chain2_BE:
  assumes "off + 2 \<le> length bytes"
  shows "bytes[off + 1 := b1, off := b0] = overwrite bytes off [b0, b1]"
proof -
  obtain pre mid post where b: "bytes = pre @ mid @ post" "length pre = off" "length mid = 2"
    using window [OF assms] by blast
  obtain a0 a1 where mid: "mid = [a0, a1]"
    using b(3) by (auto simp: numeral_eq_Suc length_Suc_conv)
  show ?thesis unfolding b(1) b(2) [symmetric] mid
    by (simp add: list_update_append list_update_Cons_numeral overwrite_def)
qed

lemma chain2_LE:
  assumes "off + 2 \<le> length bytes"
  shows "bytes[off := b1, off + 1 := b0] = overwrite bytes off [b1, b0]"
proof -
  obtain pre mid post where b: "bytes = pre @ mid @ post" "length pre = off" "length mid = 2"
    using window [OF assms] by blast
  obtain a0 a1 where mid: "mid = [a0, a1]"
    using b(3) by (auto simp: numeral_eq_Suc length_Suc_conv)
  show ?thesis unfolding b(1) b(2) [symmetric] mid
    by (simp add: list_update_append list_update_Cons_numeral overwrite_def)
qed

lemma chain1:
  assumes "off + 1 \<le> length bytes"
  shows "bytes[off := b0] = overwrite bytes off [b0]"
proof -
  obtain pre mid post where b: "bytes = pre @ mid @ post" "length pre = off" "length mid = 1"
    using window [OF assms] by blast
  obtain a0 where mid: "mid = [a0]"
    using b(3) by (auto simp: length_Suc_conv)
  show ?thesis unfolding b(1) b(2) [symmetric] mid
    by (simp add: list_update_append overwrite_def)
qed

lemma be_bytes_4: "be_bytes 4 v = [v div 16777216 mod 256, v div 65536 mod 256, v div 256 mod 256, v mod 256]"
  by (simp add: be_bytes_numeral div_div_numeral)

lemma be_bytes_1: "be_bytes 1 v = [v mod 256]"
  using be_bytes.simps(2) [of 0 v] by simp

lemma IntegerPolyfill_clamp_id:
  assumes "IntegerCodec_minValue n s \<le> v" "v \<le> IntegerCodec_maxValue n s"
  shows "IntegerPolyfill_clamp (IntegerPolyfill_new n s) (Fin (of_int v)) = Fin (of_int v)"
  using assms by (simp add: IntegerPolyfill_clamp_def polyfill_min_max)

lemma ip_byteLength_new [simp]: "ip_byteLength (IntegerPolyfill_new n s) = n"
  by (simp add: IntegerPolyfill_new_def Let_def)

lemma js_update_in: "k < length bytes \<Longrightarrow> js_update bytes k v = bytes[k := Some v]"
  by (simp add: js_update_def)

lemmas set_loop_eval = IntegerPolyfill_set_loop_numeral ToInt32_real_def and_255
  ToInt32_int_mod_256 drop_bit_eq_div ToInt32_int_div_numerals div_div_numeral js_update_in

lemma set_loop_4_BE:
  "off + 4 \<le> length buf \<Longrightarrow>
   IntegerPolyfill_set_loop buf off 3 (- 1) 4 (Fin (of_int v)) =
     buf[off + 3 := Some (v mod 256), off + 2 := Some (v div 256 mod 256),
         off + 1 := Some (v div 65536 mod 256), off := Some (v div 16777216 mod 256)]"
  by (simp add: set_loop_eval)

lemma set_loop_4_LE:
  "off + 4 \<le> length buf \<Longrightarrow>
   IntegerPolyfill_set_loop buf off 0 1 4 (Fin (of_int v)) =
     buf[off := Some (v mod 256), off + 1 := Some (v div 256 mod 256),
         off + 2 := Some (v div 65536 mod 256), off + 3 := Some (v div 16777216 mod 256)]"
  by (simp add: set_loop_eval)

lemma set_loop_2_BE:
  "off + 2 \<le> length buf \<Longrightarrow>
   IntegerPolyfill_set_loop buf off 1 (- 1) 2 (Fin (of_int v)) =
     buf[off + 1 := Some (v mod 256), off := Some (v div 256 mod 256)]"
  by (simp add: set_loop_eval)

lemma set_loop_2_LE:
  "off + 2 \<le> length buf \<Longrightarrow>
   IntegerPolyfill_set_loop buf off 0 1 2 (Fin (of_int v)) =
     buf[off := Some (v mod 256), off + 1 := Some (v div 256 mod 256)]"
  by (simp add: set_loop_eval)

lemma set_loop_1:
  "off + 1 \<le> length buf \<Longrightarrow>
   IntegerPolyfill_set_loop buf off 0 i 1 (Fin (of_int v)) = buf[off := Some (v mod 256)]"
  by (simp add: set_loop_eval)

lemma IntegerPolyfill_set_4_BE:
  assumes "off + 4 \<le> length buf"
    "IntegerCodec_minValue 4 s \<le> v" "v \<le> IntegerCodec_maxValue 4 s"
  shows "IntegerPolyfill_set (IntegerPolyfill_new 4 s) buf off (Fin (of_int v)) False
         = overwrite buf off (map Some (byte_order False (be_bytes 4 v)))"
proof -
  have "IntegerPolyfill_set (IntegerPolyfill_new 4 s) buf off (Fin (of_int v)) False
        = buf[off + 3 := Some (v mod 256), off + 2 := Some (v div 256 mod 256), off + 1 := Some (v div 65536 mod 256), off := Some (v div 16777216 mod 256)]"
    unfolding IntegerPolyfill_set_def IntegerPolyfill_clamp_id [OF assms(2,3)] Let_def ip_byteLength_new
    using assms(1) by (simp add: set_loop_4_BE)
  also have "\<dots> = overwrite buf off [Some (v div 16777216 mod 256), Some (v div 65536 mod 256), Some (v div 256 mod 256), Some (v mod 256)]"
    using assms(1) by (rule chain4_BE)
  also have "[Some (v div 16777216 mod 256), Some (v div 65536 mod 256), Some (v div 256 mod 256), Some (v mod 256)] = map Some (byte_order False (be_bytes 4 v))"
    by (simp add: byte_order_def be_bytes_4)
  finally show ?thesis .
qed

lemma IntegerPolyfill_set_4_LE:
  assumes "off + 4 \<le> length buf"
    "IntegerCodec_minValue 4 s \<le> v" "v \<le> IntegerCodec_maxValue 4 s"
  shows "IntegerPolyfill_set (IntegerPolyfill_new 4 s) buf off (Fin (of_int v)) True
         = overwrite buf off (map Some (byte_order True (be_bytes 4 v)))"
proof -
  have "IntegerPolyfill_set (IntegerPolyfill_new 4 s) buf off (Fin (of_int v)) True
        = buf[off := Some (v mod 256), off + 1 := Some (v div 256 mod 256), off + 2 := Some (v div 65536 mod 256), off + 3 := Some (v div 16777216 mod 256)]"
    unfolding IntegerPolyfill_set_def IntegerPolyfill_clamp_id [OF assms(2,3)] Let_def ip_byteLength_new
    using assms(1) by (simp add: set_loop_4_LE)
  also have "\<dots> = overwrite buf off [Some (v mod 256), Some (v div 256 mod 256), Some (v div 65536 mod 256), Some (v div 16777216 mod 256)]"
    using assms(1) by (rule chain4_LE)
  also have "[Some (v mod 256), Some (v div 256 mod 256), Some (v div 65536 mod 256), Some (v div 16777216 mod 256)] = map Some (byte_order True (be_bytes 4 v))"
    by (simp add: byte_order_def be_bytes_4)
  finally show ?thesis .
qed

lemma IntegerPolyfill_set_2_BE:
  assumes "off + 2 \<le> length buf"
    "IntegerCodec_minValue 2 s \<le> v" "v \<le> IntegerCodec_maxValue 2 s"
  shows "IntegerPolyfill_set (IntegerPolyfill_new 2 s) buf off (Fin (of_int v)) False
         = overwrite buf off (map Some (byte_order False (be_bytes 2 v)))"
proof -
  have "IntegerPolyfill_set (IntegerPolyfill_new 2 s) buf off (Fin (of_int v)) False
        = buf[off + 1 := Some (v mod 256), off := Some (v div 256 mod 256)]"
    unfolding IntegerPolyfill_set_def IntegerPolyfill_clamp_id [OF assms(2,3)] Let_def ip_byteLength_new
    using assms(1) by (simp add: set_loop_2_BE)
  also have "\<dots> = overwrite buf off [Some (v div 256 mod 256), Some (v mod 256)]"
    using assms(1) by (rule chain2_BE)
  also have "[Some (v div 256 mod 256), Some (v mod 256)] = map Some (byte_order False (be_bytes 2 v))"
    by (simp add: byte_order_def be_bytes_2)
  finally show ?thesis .
qed

lemma IntegerPolyfill_set_2_LE:
  assumes "off + 2 \<le> length buf"
    "IntegerCodec_minValue 2 s \<le> v" "v \<le> IntegerCodec_maxValue 2 s"
  shows "IntegerPolyfill_set (IntegerPolyfill_new 2 s) buf off (Fin (of_int v)) True
         = overwrite buf off (map Some (byte_order True (be_bytes 2 v)))"
proof -
  have "IntegerPolyfill_set (IntegerPolyfill_new 2 s) buf off (Fin (of_int v)) True
        = buf[off := Some (v mod 256), off + 1 := Some (v div 256 mod 256)]"
    unfolding IntegerPolyfill_set_def IntegerPolyfill_clamp_id [OF assms(2,3)] Let_def ip_byteLength_new
    using assms(1) by (simp add: set_loop_2_LE)
  also have "\<dots> = overwrite buf off [Some (v mod 256), Some (v div 256 mod 256)]"
    using assms(1) by (rule chain2_LE)
  also have "[Some (v mod 256), Some (v div 256 mod 256)] = map Some (byte_order True (be_bytes 2 v))"
    by (simp add: byte_order_def be_bytes_2)
  finally show ?thesis .
qed

lemma IntegerPolyfill_set_1_BE:
  assumes "off + 1 \<le> length buf"
    "IntegerCodec_minValue 1 s \<le> v" "v \<le> IntegerCodec_maxValue 1 s"
  shows "IntegerPolyfill_set (IntegerPolyfill_new 1 s) buf off (Fin (of_int v)) False
         = overwrite buf off (map Some (byte_order False (be_bytes 1 v)))"
proof -
  have "IntegerPolyfill_set (IntegerPolyfill_new 1 s) buf off (Fin (of_int v)) False
        = buf[off := Some (v mod 256)]"
    unfolding IntegerPolyfill_set_def IntegerPolyfill_clamp_id [OF assms(2,3)] Let_def ip_byteLength_new
    using assms(1) by (simp add: set_loop_eval)
  also have "\<dots> = overwrite buf off [Some (v mod 256)]"
    using assms(1) by (rule chain1)
  also have "[Some (v mod 256)] = map Some (byte_order False (be_bytes 1 v))"
    by (simp add: byte_order_def be_bytes_1)
  finally show ?thesis .
qed

lemma IntegerPolyfill_set_1_LE:
  assumes "off + 1 \<le> length buf"
    "IntegerCodec_minValue 1 s \<le> v" "v \<le> IntegerCodec_maxValue 1 s"
  shows "IntegerPolyfill_set (IntegerPolyfill_new 1 s) buf off (Fin (of_int v)) True
         = overwrite buf off (map Some (byte_order True (be_bytes 1 v)))"
proof -
  have "IntegerPolyfill_set (IntegerPolyfill_new 1 s) buf off (Fin (of_int v)) True
        = buf[off := Some (v mod 256)]"
    unfolding IntegerPolyfill_set_def IntegerPolyfill_clamp_id [OF assms(2,3)] Let_def ip_byteLength_new
    using assms(1) by (simp add: set_loop_eval)
  also have "\<dots> = overwrite buf off [Some (v mod 256)]"
    using assms(1) by (rule chain1)
  also have "[Some (v mod 256)] = map Some (byte_order True (be_bytes 1 v))"
    by (simp add: byte_order_def be_bytes_1)
  finally show ?thesis .
qed

lemma IntegerPolyfill_set_bytes:
  assumes "n \<in> {1, 2, 4}" "off + n \<le> length buf"
    "IntegerCodec_minValue n s \<le> v" "v \<le> IntegerCodec_maxValue n s"
  shows "IntegerPolyfill_set (IntegerPolyfill_new n s) buf off (Fin (of_int v)) le
         = overwrite buf off (map Some (byte_order le (be_bytes n v)))"
  using assms IntegerPolyfill_set_1_BE IntegerPolyfill_set_1_LE IntegerPolyfill_set_2_BE
    IntegerPolyfill_set_2_LE IntegerPolyfill_set_4_BE IntegerPolyfill_set_4_LE
  by (cases le) auto

lemma length_overwrite: "off + length bs \<le> length buf \<Longrightarrow> length (overwrite buf off bs) = length buf"
  by (simp add: overwrite_def)

lemma IntegerCodec_set_pview:
  assumes "n \<in> {1, 2, 4}" "off + n \<le> length buf"
    "IntegerCodec_minValue n s \<le> v" "v \<le> IntegerCodec_maxValue n s"
  shows "IntegerCodec_set polyfill_config n s (pview buf off) (Fin (of_int v)) le
         = Inr (pview (overwrite buf off (map Some (byte_order le (be_bytes n v)))) (off + n))"
proof -
  have l: "length (overwrite buf off (map Some (byte_order le (be_bytes n v)))) = length buf"
    using assms(2) by (simp add: length_overwrite byte_order_def)
  show ?thesis
    using assms(2-4) polyfills_Integer [OF assms(1), of s]
    by (simp add: IntegerCodec_set_def Let_def Codec_set_def polyfill_config_def
        DataViewPolyfill_set_def validateRange_def pview_def l
        IntegerPolyfill_set_bytes [OF assms])
qed

lemma uint32_set_pview:
  assumes "off + 4 \<le> length buf" "n < 2 ^ 32"
  shows "uint32_set polyfill_config (pview buf off) n le
         = Inr (pview (overwrite buf off (map Some (byte_order le (be_bytes 4 (int n))))) (off + 4))"
proof -
  have "IntegerCodec_minValue 4 False \<le> int n" "int n \<le> IntegerCodec_maxValue 4 False"
    using assms(2) by (simp_all add: IntegerCodec_minValue_def IntegerCodec_maxValue_def)
  from IntegerCodec_set_pview [OF _ assms(1) this, of le] show ?thesis
    by (simp add: uint32_set_def)
qed

lemma uint32_set_pview_full:
  assumes "length buf < off + 4"
  shows "uint32_set polyfill_config (pview buf off) n le = Inl (RangeError ''Invalid data view length'')"
  using assms
  by (simp add: uint32_set_def IntegerCodec_set_def Let_def Codec_set_def polyfill_config_def
        DataViewPolyfill_set_def validateRange_def pview_def IntegerPolyfill_new_def)


section \<open>Byte lengths of absent values\<close>

lemmas Definition_eval =
  Definition_stringify_def Definition_getByteLength_def Definition_set_def Definition_new_def
  littleEndian_of_def property_def
  StringCodec_getByteLength_def StringCodec_set_def StreamView_create_pview

lemma zero_bytes: "overwrite (replicate 4 None) 0 (map Some (byte_order le (be_bytes 4 0))) = [Some 0, Some 0, Some 0, Some 0]"
  by (simp add: overwrite_def byte_order_def be_bytes_4)

lemma uint32_set_zero:
  "uint32_set polyfill_config (pview (replicate 4 None) 0) 0 le = Inr (pview [Some 0, Some 0, Some 0, Some 0] 4)"
  using uint32_set_pview [of 0 "replicate 4 None" 0 le] by (simp add: zero_bytes)

lemma uint32_set_no_room:
  "uint32_set polyfill_config (pview [] 0) n le = Inl (RangeError ''Invalid data view length'')"
  by (rule uint32_set_pview_full) simp

lemma toString_zero: "StreamView_toString polyfill_config (pview [Some 0, Some 0, Some 0, Some 0] 4) = Inr [0, 0, 0, 0]"
  by (simp add: StreamView_toString_def pview_def polyfill_config_def DataViewPolyfill_get_def
      validateRange_def IntegerPolyfill_get_def IntegerPolyfill_new_def js_nth_def fromCharCode_def
      numeral_eq_Suc Let_def trunc_def)

text \<open>
  C4. \<open>ArrayCodec.getByteLength\<close> returns 0 for an empty and for an absent array, not
  the 4 that the claim states and that \<open>ArrayCodec.set\<close> writes for them: with the data
  view of the polyfill, \<open>set\<close> writes the four bytes of the length 0, and \<open>stringify\<close>
  of a \<open>Definition\<close> with an array field, given an empty array, allocates no byte and
  raises the \<open>RangeError\<close> of the data view.
\<close>

theorem ArrayCodec_getByteLength_empty:
  "\<forall>U le.
   codec_getByteLength U (ArrayCodec (IntegerCodec 1 False)) (Arr []) = Inr 0 \<and>
   codec_getByteLength U (ArrayCodec (IntegerCodec 1 False)) Undefined = Inr 0 \<and>
   codec_set polyfill_config U (ArrayCodec (IntegerCodec 1 False)) (StreamView_create polyfill_config 4) (Arr []) le
     = Inr (pview [Some 0, Some 0, Some 0, Some 0] 4) \<and>
   fst (Definition_stringify polyfill_config U
          (Definition_new [\<lparr> f_key = ''a'', f_type = ''array'', f_valueType = Some ''uint8'',
                             f_codec = ArrayCodec (IntegerCodec 1 False) \<rparr>] None None None)
          [''a'' \<mapsto> Arr []])
     = Inl (RangeError ''Invalid data view length'')"
  by (simp add: Definition_eval uint32_set_zero uint32_set_no_room)

text \<open>
  C7. \<open>StringCodec.set\<close> writes the four bytes of the length 0 for \<open>undefined\<close>,
  \<open>null\<close> and the empty string, but \<open>StringCodec.getByteLength\<close> reports 4 for the
  empty string only: for \<open>undefined\<close> and \<open>null\<close> it raises a \<open>TypeError\<close>, and so
  does \<open>stringify\<close> of a \<open>Definition\<close> with a string field whose value is absent.
\<close>

theorem StringCodec_getByteLength_absent:
  "\<forall>U le.
   StringCodec_getByteLength U Undefined = Inl (TypeError ''Cannot read property length of undefined'') \<and>
   StringCodec_getByteLength U Null = Inl (TypeError ''Cannot read property length of null'') \<and>
   StringCodec_getByteLength U (Str []) = Inr 4 \<and>
   StringCodec_set polyfill_config U (StreamView_create polyfill_config 4) Undefined le
     = Inr (pview [Some 0, Some 0, Some 0, Some 0] 4) \<and>
   StringCodec_set polyfill_config U (StreamView_create polyfill_config 4) Null le
     = Inr (pview [Some 0, Some 0, Some 0, Some 0] 4) \<and>
   StringCodec_set polyfill_config U (StreamView_create polyfill_config 4) (Str []) le
     = Inr (pview [Some 0, Some 0, Some 0, Some 0] 4) \<and>
   fst (Definition_stringify polyfill_config U
          (Definition_new [\<lparr> f_key = ''s'', f_type = ''string'', f_valueType = None,
                             f_codec = StringCodec \<rparr>] None None None)
          Map.empty)
     = Inl (TypeError ''Cannot read property length of undefined'') \<and>
   fst (Definition_stringify polyfill_config U
          (Definition_new [\<lparr> f_key = ''s'', f_type = ''string'', f_valueType = None,
                             f_codec = StringCodec \<rparr>] None None None)
          [''s'' \<mapsto> Str []])
     = Inr [0, 0, 0, 0]"
  by (simp add: Definition_eval uint32_set_zero uint32_set_no_room toString_zero)

lemma ArrayCodec_getByteLength_nonempty:
  assumes "elements values \<noteq> []"
  shows "codec_getByteLength U (ArrayCodec c) values =
     (case codec_byteLength c of
        Some w \<Rightarrow> Inr (4 + length (elements values) * w)
      | None \<Rightarrow> getByteLength_loop (codec_getByteLength U c) 4 (elements values))"
  using assms by simp

lemma StringCodec_set_absent:
  "\<not> ToBoolean value \<Longrightarrow> StringCodec_set C U sv value le = uint32_set C sv 0 le"
  by (simp add: StringCodec_set_def)

section \<open>FloatPolyfill\<close>

lemma float32_fields:
  "fp_byteLength float32 = 4" "numSignificandBits float32 = 23" "numExponentBits float32 = 8"
  "exponentMax float32 = 255" "exponentBias float32 = 127"
  "roundTo float32 = pow2 (- 24) - pow2 (- 77)"
  by (simp_all add: float32_def FloatPolyfill_new_def Let_def)

lemma float64_fields:
  "fp_byteLength float64 = 8" "numSignificandBits float64 = 52" "numExponentBits float64 = 11"
  "exponentMax float64 = 2047" "exponentBias float64 = 1023" "roundTo float64 = 0"
  by (simp_all add: float64_def FloatPolyfill_new_def Let_def)

lemma and_127: "(x::int) AND 127 = x mod 128"
  using take_bit_eq_mask [of 7 x] by (simp add: take_bit_eq_mod mask_eq_exp_minus_1)

lemma and_15: "(x::int) AND 15 = x mod 16"
  using take_bit_eq_mask [of 4 x] by (simp add: take_bit_eq_mod mask_eq_exp_minus_1)

lemma word_fields:
  fixes b0 b1 L K :: int and k :: nat
  assumes b0: "0 \<le> b0" "b0 < 256" and b1: "0 \<le> b1" "b1 < 256" and L: "0 \<le> L" "L < K"
    and k: "k \<le> 15"
  defines "G \<equiv> b0 * 256 + b1" and "H \<equiv> (b0 mod 128) * 256 + b1"
  defines "W \<equiv> G * K + L"
  shows "W div (K * 2 ^ 15) = b0 div 128"
    and "W div (K * 2 ^ k) mod 2 ^ (15 - k) = H div 2 ^ k"
    and "W mod (K * 2 ^ k) = K * (H mod 2 ^ k) + L"
proof -
  have K: "0 < K" using L by simp
  have WK: "W div K = G" unfolding W_def using L K by (simp add: div_pos_pos_trivial)
  have WmK: "W mod K = L" unfolding W_def using L by (simp add: mod_pos_pos_trivial)
  have G256: "G div 256 = b0" "G mod 256 = b1" unfolding G_def using b1 by simp_all
  have GH: "G mod 32768 = H"
  proof -
    have "G mod (256 * 128) = 256 * (G div 256 mod 128) + G mod 256"
      by (rule zmod_zmult2_eq) simp
    then show ?thesis by (simp add: G256 H_def)
  qed
  show "W div (K * 2 ^ 15) = b0 div 128"
  proof -
    have "W div (K * 2 ^ 15) = W div K div 2 ^ 15" by (rule zdiv_zmult2_eq) simp
    also have "\<dots> = G div (256 * 128)" by (simp add: WK)
    also have "\<dots> = G div 256 div 128" by (rule zdiv_zmult2_eq) simp
    finally show ?thesis by (simp add: G256)
  qed
  have split15: "(2::int) ^ 15 = 2 ^ k * 2 ^ (15 - k)"
    using k by (simp flip: power_add)
  have Hk: "H mod 2 ^ k = G mod 2 ^ k"
  proof -
    have "(2::int) ^ k dvd 2 ^ 15" using k by (rule le_imp_power_dvd)
    then have "G mod 2 ^ 15 mod 2 ^ k = G mod 2 ^ k" by (rule mod_mod_cancel)
    moreover have "G mod 2 ^ 15 = H" using GH by simp
    ultimately show ?thesis by simp
  qed
  show "W div (K * 2 ^ k) mod 2 ^ (15 - k) = H div 2 ^ k"
  proof -
    have "W div (K * 2 ^ k) = W div K div 2 ^ k" by (rule zdiv_zmult2_eq) simp
    then have 1: "W div (K * 2 ^ k) = G div 2 ^ k" by (simp add: WK)
    have "G mod (2 ^ k * 2 ^ (15 - k)) = 2 ^ k * (G div 2 ^ k mod 2 ^ (15 - k)) + G mod 2 ^ k"
      by (rule zmod_zmult2_eq) simp
    then have "H = (G div 2 ^ k mod 2 ^ (15 - k)) * 2 ^ k + H mod 2 ^ k"
      using GH split15 Hk by (simp add: mult.commute)
    then have "H div 2 ^ k = (G div 2 ^ k mod 2 ^ (15 - k)) + H mod 2 ^ k div 2 ^ k"
      by (metis div_split zero_less_numeral zero_less_power)
    then show ?thesis by (simp add: 1)
  qed
  show "W mod (K * 2 ^ k) = K * (H mod 2 ^ k) + L"
  proof -
    have "W mod (K * 2 ^ k) = K * (W div K mod 2 ^ k) + W mod K"
      by (rule zmod_zmult2_eq) simp
    then show ?thesis by (simp add: WK WmK Hk)
  qed
qed

lemma be_value8:
  "be_value [b0, b1, b2, b3, b4, b5, b6, b7] =
     (b0 * 256 + b1) * 281474976710656 +
     (1099511627776 * b2 + 4294967296 * b3 + 16777216 * b4 + 65536 * b5 + b6 * 256 + b7)"
  by (simp add: be_value_def)

lemma low48:
  fixes b2 :: int
  assumes "0 \<le> b2" "b2 < 256" "0 \<le> b3" "b3 < 256"
    "0 \<le> b4" "b4 < 256" "0 \<le> b5" "b5 < 256" "0 \<le> b6" "b6 < 256" "0 \<le> b7" "b7 < 256"
  shows "0 \<le> 1099511627776 * b2 + 4294967296 * b3 + 16777216 * b4 + 65536 * b5 + b6 * 256 + b7"
    and "1099511627776 * b2 + 4294967296 * b3 + 16777216 * b4 + 65536 * b5 + b6 * 256 + b7 < 281474976710656"
  using assms by linarith+

lemma float64_word_fields:
  fixes b0 b1 L :: int
  assumes "0 \<le> b0" "b0 < 256" "0 \<le> b1" "b1 < 256" "0 \<le> L" "L < 281474976710656"
  defines "W \<equiv> (b0 * 256 + b1) * 281474976710656 + L"
  shows "sign_bit float64 W = b0 div 128"
    and "exponent_bits float64 W = ((b0 mod 128) * 256 + b1) div 16"
    and "significand_bits float64 W = 281474976710656 * (((b0 mod 128) * 256 + b1) mod 16) + L"
proof -
  note f = word_fields [OF assms(1-6), of 4, folded W_def]
  have n: "(281474976710656::int) * 2 ^ 15 = 2 ^ 63" "(281474976710656::int) * 2 ^ 4 = 2 ^ 52"
    "(15::nat) - 4 = 11"
    by simp_all
  show "sign_bit float64 W = b0 div 128"
    unfolding sign_bit_def float64_fields using f(1) unfolding n by simp
  show "exponent_bits float64 W = ((b0 mod 128) * 256 + b1) div 16"
    unfolding exponent_bits_def float64_fields using f(2) unfolding n by simp
  show "significand_bits float64 W = 281474976710656 * (((b0 mod 128) * 256 + b1) mod 16) + L"
    unfolding significand_bits_def float64_fields using f(3) unfolding n by simp
qed

lemma get_float64_BE_raw:
  assumes "is_bytes [b0, b1, b2, b3, b4, b5, b6, b7]"
  shows "FloatPolyfill_get float64 (pre @ [Some b0, Some b1, Some b2, Some b3, Some b4, Some b5, Some b6, Some b7] @ post) (length pre) False
    = FloatPolyfill_value float64 (b0 div 128) (((b0 mod 128) * 256 + b1) div 16)
           (Some (281474976710656 * (((b0 mod 128) * 256 + b1) mod 16) + 1099511627776 * b2 +
            4294967296 * b3 + 16777216 * b4 + 65536 * b5 + b6 * 256 + b7))"
proof -
  have b: "0 \<le> b0" "b0 < 256" "0 \<le> b1" "b1 < 256"
    using assms by (simp_all add: is_bytes_def)
  have H: "0 \<le> (b0 mod 128) * 256 + b1" "(b0 mod 128) * 256 + b1 < 32768"
    using b by auto
  have T: "ToInt32_int (b0 mod 128 * 256 + b1) = b0 mod 128 * 256 + b1"
    using H by (intro ToInt32_int_id) auto
  have T0: "ToInt32_int b0 = b0" using b by (intro ToInt32_int_id) auto
  have T16: "ToInt32_int 16 = 16" by (simp add: ToInt32_int_def)
  have A15: "\<And>x. x AND (16 - 1) = x mod (16::int)" using and_15 by simp
  have "FloatPolyfill_get float64 (pre @ [Some b0, Some b1, Some b2, Some b3, Some b4, Some b5, Some b6, Some b7] @ post) (length pre) False
    = FloatPolyfill_value float64 (b0 div 128) (((b0 mod 128) * 256 + b1) div 16)
           (Some (281474976710656 * (((b0 mod 128) * 256 + b1) mod 16) + 1099511627776 * b2 +
            4294967296 * b3 + 16777216 * b4 + 65536 * b5 + b6 * 256 + b7))"
    unfolding FloatPolyfill_get_def float64_fields
    apply (simp add: get_exponent_loop.simps js_nth_def nth_append T0 T T16 A15 and_127 and_15 drop_bit_eq_div Let_def)
    apply (simp add: get_significand_loop.simps js_nth_def nth_append T)
    done
  then show ?thesis .
qed

lemma get_float64_LE_raw:
  assumes "is_bytes [b0, b1, b2, b3, b4, b5, b6, b7]"
  shows "FloatPolyfill_get float64 (pre @ [Some b7, Some b6, Some b5, Some b4, Some b3, Some b2, Some b1, Some b0] @ post) (length pre) True
    = FloatPolyfill_value float64 (b0 div 128) (((b0 mod 128) * 256 + b1) div 16)
           (Some (281474976710656 * (((b0 mod 128) * 256 + b1) mod 16) + 1099511627776 * b2 +
            4294967296 * b3 + 16777216 * b4 + 65536 * b5 + b6 * 256 + b7))"
proof -
  have b: "0 \<le> b0" "b0 < 256" "0 \<le> b1" "b1 < 256"
    using assms by (simp_all add: is_bytes_def)
  have H: "0 \<le> (b0 mod 128) * 256 + b1" "(b0 mod 128) * 256 + b1 < 32768"
    using b by auto
  have T: "ToInt32_int (b0 mod 128 * 256 + b1) = b0 mod 128 * 256 + b1"
    using H by (intro ToInt32_int_id) auto
  have T0: "ToInt32_int b0 = b0" using b by (intro ToInt32_int_id) auto
  have T16: "ToInt32_int 16 = 16" by (simp add: ToInt32_int_def)
  have A15: "\<And>x. x AND (16 - 1) = x mod (16::int)" using and_15 by simp
  have "FloatPolyfill_get float64 (pre @ [Some b7, Some b6, Some b5, Some b4, Some b3, Some b2, Some b1, Some b0] @ post) (length pre) True
    = FloatPolyfill_value float64 (b0 div 128) (((b0 mod 128) * 256 + b1) div 16)
           (Some (281474976710656 * (((b0 mod 128) * 256 + b1) mod 16) + 1099511627776 * b2 +
            4294967296 * b3 + 16777216 * b4 + 65536 * b5 + b6 * 256 + b7))"
    unfolding FloatPolyfill_get_def float64_fields
    apply (simp add: get_exponent_loop.simps js_nth_def nth_append T0 T T16 A15 and_127 and_15 drop_bit_eq_div Let_def nat_add_distrib)
    apply (simp add: get_significand_loop.simps js_nth_def nth_append nat_add_distrib T)
    done
  then show ?thesis .
qed

lemma float64_decode_bytes:
  assumes "is_bytes [b0, b1, b2, b3, b4, b5, b6, b7]"
  shows "float_decode float64 (be_value [b0, b1, b2, b3, b4, b5, b6, b7]) =
         FloatPolyfill_value float64 (b0 div 128) (((b0 mod 128) * 256 + b1) div 16)
           (Some (281474976710656 * (((b0 mod 128) * 256 + b1) mod 16) + 1099511627776 * b2 +
            4294967296 * b3 + 16777216 * b4 + 65536 * b5 + b6 * 256 + b7))"
proof -
  have b: "0 \<le> b0" "b0 < 256" "0 \<le> b1" "b1 < 256" "0 \<le> b2" "b2 < 256" "0 \<le> b3" "b3 < 256"
    "0 \<le> b4" "b4 < 256" "0 \<le> b5" "b5 < 256" "0 \<le> b6" "b6 < 256" "0 \<le> b7" "b7 < 256"
    using assms by (simp_all add: is_bytes_def)
  note f = float64_word_fields [OF b(1-4) low48 [OF b(5-16)]]
  show ?thesis
    unfolding float_decode_def be_value8 f by (simp only: add.assoc)
qed

lemma FloatPolyfill_get_float64_BE:
  assumes "is_bytes [b0, b1, b2, b3, b4, b5, b6, b7]"
  shows "FloatPolyfill_get float64 (pre @ [Some b0, Some b1, Some b2, Some b3, Some b4, Some b5, Some b6, Some b7] @ post) (length pre) False
         = float_decode float64 (be_value [b0, b1, b2, b3, b4, b5, b6, b7])"
  unfolding get_float64_BE_raw [OF assms] float64_decode_bytes [OF assms] ..

lemma FloatPolyfill_get_float64_LE:
  assumes "is_bytes [b0, b1, b2, b3, b4, b5, b6, b7]"
  shows "FloatPolyfill_get float64 (pre @ [Some b7, Some b6, Some b5, Some b4, Some b3, Some b2, Some b1, Some b0] @ post) (length pre) True
         = float_decode float64 (be_value [b0, b1, b2, b3, b4, b5, b6, b7])"
  unfolding get_float64_LE_raw [OF assms] float64_decode_bytes [OF assms] ..

lemma and_127': "(x::int) AND (128 - 1) = x mod 128"
  using and_127 by simp

lemma be_value4:
  "be_value [b0, b1, b2, b3] = (b0 * 256 + b1) * 65536 + (b2 * 256 + b3)"
  by (simp add: be_value_def)

lemma low16:
  fixes b2 :: int
  assumes "0 \<le> b2" "b2 < 256" "0 \<le> b3" "b3 < 256"
  shows "0 \<le> b2 * 256 + b3" and "b2 * 256 + b3 < 65536"
  using assms by linarith+

lemma float32_word_fields:
  fixes b0 b1 L :: int
  assumes "0 \<le> b0" "b0 < 256" "0 \<le> b1" "b1 < 256" "0 \<le> L" "L < 65536"
  defines "W \<equiv> (b0 * 256 + b1) * 65536 + L"
  shows "sign_bit float32 W = b0 div 128"
    and "exponent_bits float32 W = ((b0 mod 128) * 256 + b1) div 128"
    and "significand_bits float32 W = 65536 * (((b0 mod 128) * 256 + b1) mod 128) + L"
proof -
  note f = word_fields [OF assms(1-6), of 7, folded W_def]
  have n: "(65536::int) * 2 ^ 15 = 2 ^ 31" "(65536::int) * 2 ^ 7 = 2 ^ 23"
    "(15::nat) - 7 = 8"
    by simp_all
  show "sign_bit float32 W = b0 div 128"
    unfolding sign_bit_def float32_fields using f(1) unfolding n by simp
  show "exponent_bits float32 W = ((b0 mod 128) * 256 + b1) div 128"
    unfolding exponent_bits_def float32_fields using f(2) unfolding n by simp
  show "significand_bits float32 W = 65536 * (((b0 mod 128) * 256 + b1) mod 128) + L"
    unfolding significand_bits_def float32_fields using f(3) unfolding n by simp
qed

lemma get_float32_BE_raw:
  assumes "is_bytes [b0, b1, b2, b3]"
  shows "FloatPolyfill_get float32 (pre @ [Some b0, Some b1, Some b2, Some b3] @ post) (length pre) False
    = FloatPolyfill_value float32 (b0 div 128) (((b0 mod 128) * 256 + b1) div 128)
           (Some (65536 * (((b0 mod 128) * 256 + b1) mod 128) + (b2 * 256 + b3)))"
proof -
  have b: "0 \<le> b0" "b0 < 256" "0 \<le> b1" "b1 < 256"
    using assms by (simp_all add: is_bytes_def)
  have H: "0 \<le> (b0 mod 128) * 256 + b1" "(b0 mod 128) * 256 + b1 < 32768"
    using b by auto
  have T: "ToInt32_int (b0 mod 128 * 256 + b1) = b0 mod 128 * 256 + b1"
    using H by (intro ToInt32_int_id) auto
  have T0: "ToInt32_int b0 = b0" using b by (intro ToInt32_int_id) auto
  have T16: "ToInt32_int 128 = 128" by (simp add: ToInt32_int_def)
  show ?thesis
    unfolding FloatPolyfill_get_def float32_fields
    apply (simp add: get_exponent_loop.simps js_nth_def nth_append T0 T T16 and_127' and_127 drop_bit_eq_div Let_def)
    apply (simp add: get_significand_loop.simps js_nth_def nth_append T)
    apply (simp only: add.assoc)
    done
qed

lemma get_float32_LE_raw:
  assumes "is_bytes [b0, b1, b2, b3]"
  shows "FloatPolyfill_get float32 (pre @ [Some b3, Some b2, Some b1, Some b0] @ post) (length pre) True
    = FloatPolyfill_value float32 (b0 div 128) (((b0 mod 128) * 256 + b1) div 128)
           (Some (65536 * (((b0 mod 128) * 256 + b1) mod 128) + (b2 * 256 + b3)))"
proof -
  have b: "0 \<le> b0" "b0 < 256" "0 \<le> b1" "b1 < 256"
    using assms by (simp_all add: is_bytes_def)
  have H: "0 \<le> (b0 mod 128) * 256 + b1" "(b0 mod 128) * 256 + b1 < 32768"
    using b by auto
  have T: "ToInt32_int (b0 mod 128 * 256 + b1) = b0 mod 128 * 256 + b1"
    using H by (intro ToInt32_int_id) auto
  have T0: "ToInt32_int b0 = b0" using b by (intro ToInt32_int_id) auto
  have T16: "ToInt32_int 128 = 128" by (simp add: ToInt32_int_def)
  show ?thesis
    unfolding FloatPolyfill_get_def float32_fields
    apply (simp add: get_exponent_loop.simps js_nth_def nth_append T0 T T16 and_127' and_127 drop_bit_eq_div Let_def nat_add_distrib)
    apply (simp add: get_significand_loop.simps js_nth_def nth_append T nat_add_distrib)
    apply (simp only: add.assoc)
    done
qed

lemma float32_decode_bytes:
  assumes "is_bytes [b0, b1, b2, b3]"
  shows "float_decode float32 (be_value [b0, b1, b2, b3]) =
         FloatPolyfill_value float32 (b0 div 128) (((b0 mod 128) * 256 + b1) div 128)
           (Some (65536 * (((b0 mod 128) * 256 + b1) mod 128) + (b2 * 256 + b3)))"
proof -
  have b: "0 \<le> b0" "b0 < 256" "0 \<le> b1" "b1 < 256" "0 \<le> b2" "b2 < 256" "0 \<le> b3" "b3 < 256"
    using assms by (simp_all add: is_bytes_def)
  note f = float32_word_fields [OF b(1-4) low16 [OF b(5-8)]]
  show ?thesis
    unfolding float_decode_def be_value4 f ..
qed

lemma FloatPolyfill_get_float32_BE:
  assumes "is_bytes [b0, b1, b2, b3]"
  shows "FloatPolyfill_get float32 (pre @ [Some b0, Some b1, Some b2, Some b3] @ post) (length pre) False
         = float_decode float32 (be_value [b0, b1, b2, b3])"
  unfolding get_float32_BE_raw [OF assms] float32_decode_bytes [OF assms] ..

lemma FloatPolyfill_get_float32_LE:
  assumes "is_bytes [b0, b1, b2, b3]"
  shows "FloatPolyfill_get float32 (pre @ [Some b3, Some b2, Some b1, Some b0] @ post) (length pre) True
         = float_decode float32 (be_value [b0, b1, b2, b3])"
  unfolding get_float32_LE_raw [OF assms] float32_decode_bytes [OF assms] ..

lemma trunc_nonneg: "0 \<le> q \<Longrightarrow> trunc q = \<lfloor>q\<rfloor>"
  by (simp add: trunc_def)

lemma ToInt32_real_and_255: "0 \<le> q \<Longrightarrow> ToInt32_real q AND 255 = \<lfloor>q\<rfloor> mod 256"
  by (simp add: ToInt32_real_def trunc_def and_255 ToInt32_int_mod_256)

lemma ToInt32_real_of_int_and_255:
  "0 \<le> n \<Longrightarrow> ToInt32_real (real_of_int n) AND 255 = n mod 256"
  using ToInt32_real_and_255 [of "real_of_int n"] by (simp only: of_int_0_le_iff floor_of_int)

lemma ToInt32_real_of_int_div_and_255:
  "0 \<le> n \<Longrightarrow> ToInt32_real (real_of_int n / 256) AND 255 = n div 256 mod 256"
proof -
  assume n: "0 \<le> n"
  have "\<lfloor>real_of_int n / 256\<rfloor> = n div 256"
    using floor_divide_of_int_eq [of n 256, where ?'a = real] by simp
  moreover have "0 \<le> real_of_int n / 256" using n by simp
  ultimately show ?thesis using ToInt32_real_and_255 [of "real_of_int n / 256"] by simp
qed

lemma floor_divide_numeral: "\<lfloor>a / numeral k\<rfloor> = \<lfloor>a :: real\<rfloor> div numeral k"
  using floor_divide_real_eq_div [of "numeral k" a] by simp

lemma push_bit_or: "0 \<le> r \<Longrightarrow> r < 2 ^ n \<Longrightarrow> push_bit n a OR r = a * 2 ^ n + (r::int)"
proof -
  assume "0 \<le> r" "r < 2 ^ n"
  then have r: "take_bit n r = r" by (simp add: take_bit_int_eq_self)
  have "push_bit n a + take_bit n r = push_bit n a OR take_bit n r"
    by (rule disjunctive_add) (auto simp: bit_push_bit_iff bit_take_bit_iff)
  then show ?thesis by (simp add: r push_bit_eq_mult)
qed

lemma sign_or: "0 \<le> x \<Longrightarrow> x < 128 \<Longrightarrow> s = 0 \<or> s = 1 \<Longrightarrow> ToInt32_int x OR ToInt32_int (s * 128) = x + s * (128::int)"
proof -
  assume x: "0 \<le> x" "x < 128" and s: "s = 0 \<or> s = 1"
  have 1: "ToInt32_int x = x" using x by (intro ToInt32_int_id) auto
  have 2: "ToInt32_int (s * 128) = s * 128" using s by (intro ToInt32_int_id) auto
  have "push_bit 7 s OR x = s * 2 ^ 7 + x" using x by (intro push_bit_or) auto
  then show ?thesis by (simp add: 1 2 push_bit_eq_mult or.commute)
qed

lemma float64_top:
  assumes "0 \<le> m" "m < 2 ^ 52"
  shows "0 \<le> \<lfloor>m\<rfloor> div 281474976710656" "\<lfloor>m\<rfloor> div 281474976710656 < 16"
proof -
  have M: "0 \<le> \<lfloor>m\<rfloor>" "\<lfloor>m\<rfloor> \<le> 4503599627370495" using assms by (simp_all add: floor_less_iff)
  show "0 \<le> \<lfloor>m\<rfloor> div 281474976710656" using M by (simp add: pos_imp_zdiv_nonneg_iff)
  have "\<lfloor>m\<rfloor> div 281474976710656 \<le> 4503599627370495 div 281474976710656"
    using M(2) by (rule zdiv_mono1) simp
  then show "\<lfloor>m\<rfloor> div 281474976710656 < 16" by simp
qed

lemma float64_exponent_word:
  assumes "0 \<le> m" "m < 2 ^ 52" "0 \<le> e" "e < 2048"
  shows "ToInt32_int (push_bit 4 (ToInt32_int e)) OR ToInt32_real (m / 281474976710656)
         = e * 16 + \<lfloor>m\<rfloor> div 281474976710656"
proof -
  let ?r = "\<lfloor>m\<rfloor> div 281474976710656"
  have r: "0 \<le> ?r" "?r < 16" using float64_top [OF assms(1,2)] by simp_all
  have 1: "ToInt32_int e = e" using assms by (intro ToInt32_int_id) auto
  have 2: "ToInt32_int (push_bit 4 e) = push_bit 4 e"
    using assms by (intro ToInt32_int_id) (auto simp: push_bit_eq_mult)
  have 3: "ToInt32_real (m / 281474976710656) = ?r"
  proof -
    have "trunc (m / 281474976710656) = ?r"
      using assms by (simp add: trunc_nonneg floor_divide_numeral)
    moreover have "ToInt32_int ?r = ?r" using r by (intro ToInt32_int_id) auto
    ultimately show ?thesis by (simp add: ToInt32_real_def)
  qed
  have "push_bit 4 e OR ?r = e * 2 ^ 4 + ?r" using r by (intro push_bit_or) auto
  then show ?thesis by (simp add: 1 2 3)
qed

lemma float32_top:
  assumes "0 \<le> m" "m < 2 ^ 23"
  shows "0 \<le> \<lfloor>m\<rfloor> div 65536" "\<lfloor>m\<rfloor> div 65536 < 128"
proof -
  have M: "0 \<le> \<lfloor>m\<rfloor>" "\<lfloor>m\<rfloor> \<le> 8388607" using assms by (simp_all add: floor_less_iff)
  show "0 \<le> \<lfloor>m\<rfloor> div 65536" using M by (simp add: pos_imp_zdiv_nonneg_iff)
  have "\<lfloor>m\<rfloor> div 65536 \<le> 8388607 div 65536"
    using M(2) by (rule zdiv_mono1) simp
  then show "\<lfloor>m\<rfloor> div 65536 < 128" by simp
qed

lemma float32_exponent_word:
  assumes "0 \<le> m" "m < 2 ^ 23" "0 \<le> e" "e < 256"
  shows "ToInt32_int (push_bit 7 (ToInt32_int e)) OR ToInt32_real (m / 65536)
         = e * 128 + \<lfloor>m\<rfloor> div 65536"
proof -
  let ?r = "\<lfloor>m\<rfloor> div 65536"
  have r: "0 \<le> ?r" "?r < 128" using float32_top [OF assms(1,2)] by simp_all
  have 1: "ToInt32_int e = e" using assms by (intro ToInt32_int_id) auto
  have 2: "ToInt32_int (push_bit 7 e) = push_bit 7 e"
    using assms by (intro ToInt32_int_id) (auto simp: push_bit_eq_mult)
  have 3: "ToInt32_real (m / 65536) = ?r"
  proof -
    have "trunc (m / 65536) = ?r"
      using assms by (simp add: trunc_nonneg floor_divide_numeral)
    moreover have "ToInt32_int ?r = ?r" using r by (intro ToInt32_int_id) auto
    ultimately show ?thesis by (simp add: ToInt32_real_def)
  qed
  have "push_bit 7 e OR ?r = e * 2 ^ 7 + ?r" using r by (intro push_bit_or) auto
  then show ?thesis by (simp add: 1 2 3)
qed

lemma significand_loop_float64_BE:
  assumes "off + 8 \<le> length bytes" "0 \<le> m"
  shows "significand_loop bytes off 7 (- 1) m 52 =
    (bytes[off + 7 := Some (\<lfloor>m\<rfloor> mod 256), off + 6 := Some (\<lfloor>m\<rfloor> div 256 mod 256),
           off + 5 := Some (\<lfloor>m\<rfloor> div 65536 mod 256), off + 4 := Some (\<lfloor>m\<rfloor> div 16777216 mod 256),
           off + 3 := Some (\<lfloor>m\<rfloor> div 4294967296 mod 256), off + 2 := Some (\<lfloor>m\<rfloor> div 1099511627776 mod 256)],
     1, m / 281474976710656, 4)"
  using assms by (simp add: significand_loop.simps js_update_in ToInt32_real_and_255 floor_divide_numeral)

lemma significand_loop_float64_LE:
  assumes "off + 8 \<le> length bytes" "0 \<le> m"
  shows "significand_loop bytes off 0 1 m 52 =
    (bytes[off := Some (\<lfloor>m\<rfloor> mod 256), off + 1 := Some (\<lfloor>m\<rfloor> div 256 mod 256),
           off + 2 := Some (\<lfloor>m\<rfloor> div 65536 mod 256), off + 3 := Some (\<lfloor>m\<rfloor> div 16777216 mod 256),
           off + 4 := Some (\<lfloor>m\<rfloor> div 4294967296 mod 256), off + 5 := Some (\<lfloor>m\<rfloor> div 1099511627776 mod 256)],
     6, m / 281474976710656, 4)"
  using assms by (simp add: significand_loop.simps js_update_in ToInt32_real_and_255 floor_divide_numeral)

lemma significand_loop_float32_BE:
  assumes "off + 4 \<le> length bytes" "0 \<le> m"
  shows "significand_loop bytes off 3 (- 1) m 23 =
    (bytes[off + 3 := Some (\<lfloor>m\<rfloor> mod 256), off + 2 := Some (\<lfloor>m\<rfloor> div 256 mod 256)], 1, m / 65536, 7)"
  using assms by (simp add: significand_loop.simps js_update_in ToInt32_real_and_255 floor_divide_numeral)

lemma significand_loop_float32_LE:
  assumes "off + 4 \<le> length bytes" "0 \<le> m"
  shows "significand_loop bytes off 0 1 m 23 =
    (bytes[off := Some (\<lfloor>m\<rfloor> mod 256), off + 1 := Some (\<lfloor>m\<rfloor> div 256 mod 256)], 2, m / 65536, 7)"
  using assms by (simp add: significand_loop.simps js_update_in ToInt32_real_and_255 floor_divide_numeral)

lemma exponent_loop_2_BE:
  assumes "off + 2 \<le> length bytes" "0 \<le> E"
  shows "exponent_loop bytes off 1 (- 1) (real_of_int E) 15 =
    (bytes[off + 1 := Some (E mod 256), off := Some (E div 256 mod 256)], - 1)"
  using assms
  by (simp add: exponent_loop.simps js_update_in ToInt32_real_of_int_and_255 ToInt32_real_of_int_div_and_255
        del: of_int_add of_int_mult)

lemma exponent_loop_2_LE:
  assumes "off + 8 \<le> length bytes" "0 \<le> E"
  shows "exponent_loop bytes off 6 1 (real_of_int E) 15 =
    (bytes[off + 6 := Some (E mod 256), off + 7 := Some (E div 256 mod 256)], 8)"
  using assms
  by (simp add: exponent_loop.simps js_update_in ToInt32_real_of_int_and_255 ToInt32_real_of_int_div_and_255
        nat_add_distrib del: of_int_add of_int_mult)

lemma exponent_loop_2_LE32:
  assumes "off + 4 \<le> length bytes" "0 \<le> E"
  shows "exponent_loop bytes off 2 1 (real_of_int E) 15 =
    (bytes[off + 2 := Some (E mod 256), off + 3 := Some (E div 256 mod 256)], 4)"
  using assms
  by (simp add: exponent_loop.simps js_update_in ToInt32_real_of_int_and_255 ToInt32_real_of_int_div_and_255
        nat_add_distrib del: of_int_add of_int_mult)

lemma floatPartsToByteArray_float64_BE:
  assumes "off + 8 \<le> length bytes" "0 \<le> m" "m < 2 ^ 52" "0 \<le> e" "e < 2048" "s = 0 \<or> s = 1"
  shows "floatPartsToByteArray float64 bytes off s e m False = overwrite bytes off (map Some (float64_bytes s e \<lfloor>m\<rfloor>))"
proof -
  let ?E = "e * 16 + \<lfloor>m\<rfloor> div 281474976710656"
  have E: "0 \<le> ?E" "?E < 32768"
    using float64_top [OF assms(2,3)] assms(4,5) by simp_all
  have E2: "0 \<le> ?E div 256" "?E div 256 < 128" using E by simp_all
  have hi: "?E div 256 mod 256 = ?E div 256" using E2 by simp
  have "floatPartsToByteArray float64 bytes off s e m False =
     bytes[off + 7 := Some (\<lfloor>m\<rfloor> mod 256), off + 6 := Some (\<lfloor>m\<rfloor> div 256 mod 256),
           off + 5 := Some (\<lfloor>m\<rfloor> div 65536 mod 256), off + 4 := Some (\<lfloor>m\<rfloor> div 16777216 mod 256),
           off + 3 := Some (\<lfloor>m\<rfloor> div 4294967296 mod 256), off + 2 := Some (\<lfloor>m\<rfloor> div 1099511627776 mod 256),
           off + 1 := Some (?E mod 256), off := Some (?E div 256 + s * 128)]"
    unfolding floatPartsToByteArray_def float64_fields
    using assms(1)
    by (simp add: significand_loop_float64_BE [OF assms(1,2)] float64_exponent_word [OF assms(2-5)]
        exponent_loop_2_BE [OF _ E(1)] js_update_in js_nth_def hi sign_or [OF E2 assms(6)] del: of_int_add of_int_mult)
  then show ?thesis
    unfolding chain8_BE [OF assms(1)] float64_bytes_def Let_def by simp
qed

lemma floatPartsToByteArray_float64_LE:
  assumes "off + 8 \<le> length bytes" "0 \<le> m" "m < 2 ^ 52" "0 \<le> e" "e < 2048" "s = 0 \<or> s = 1"
  shows "floatPartsToByteArray float64 bytes off s e m True = overwrite bytes off (map Some (rev (float64_bytes s e \<lfloor>m\<rfloor>)))"
proof -
  let ?E = "e * 16 + \<lfloor>m\<rfloor> div 281474976710656"
  have E: "0 \<le> ?E" "?E < 32768"
    using float64_top [OF assms(2,3)] assms(4,5) by simp_all
  have E2: "0 \<le> ?E div 256" "?E div 256 < 128" using E by simp_all
  have hi: "?E div 256 mod 256 = ?E div 256" using E2 by simp
  have "floatPartsToByteArray float64 bytes off s e m True =
     bytes[off := Some (\<lfloor>m\<rfloor> mod 256), off + 1 := Some (\<lfloor>m\<rfloor> div 256 mod 256),
           off + 2 := Some (\<lfloor>m\<rfloor> div 65536 mod 256), off + 3 := Some (\<lfloor>m\<rfloor> div 16777216 mod 256),
           off + 4 := Some (\<lfloor>m\<rfloor> div 4294967296 mod 256), off + 5 := Some (\<lfloor>m\<rfloor> div 1099511627776 mod 256),
           off + 6 := Some (?E mod 256), off + 7 := Some (?E div 256 + s * 128)]"
    unfolding floatPartsToByteArray_def float64_fields
    using assms(1)
    by (simp add: significand_loop_float64_LE [OF assms(1,2)] float64_exponent_word [OF assms(2-5)]
        exponent_loop_2_LE [OF _ E(1)] js_update_in js_nth_def hi sign_or [OF E2 assms(6)] nat_add_distrib Let_def
        add.commute [of "7::nat" off]
        del: of_int_add of_int_mult)
  then show ?thesis
    unfolding chain8_LE [OF assms(1)] float64_bytes_def Let_def by simp
qed

lemma floatPartsToByteArray_float32_BE:
  assumes "off + 4 \<le> length bytes" "0 \<le> m" "m < 2 ^ 23" "0 \<le> e" "e < 256" "s = 0 \<or> s = 1"
  shows "floatPartsToByteArray float32 bytes off s e m False = overwrite bytes off (map Some (float32_bytes s e \<lfloor>m\<rfloor>))"
proof -
  let ?E = "e * 128 + \<lfloor>m\<rfloor> div 65536"
  have E: "0 \<le> ?E" "?E < 32768"
    using float32_top [OF assms(2,3)] assms(4,5) by simp_all
  have E2: "0 \<le> ?E div 256" "?E div 256 < 128" using E by simp_all
  have hi: "?E div 256 mod 256 = ?E div 256" using E2 by simp
  have "floatPartsToByteArray float32 bytes off s e m False =
     bytes[off + 3 := Some (\<lfloor>m\<rfloor> mod 256), off + 2 := Some (\<lfloor>m\<rfloor> div 256 mod 256),
           off + 1 := Some (?E mod 256), off := Some (?E div 256 + s * 128)]"
    unfolding floatPartsToByteArray_def float32_fields
    using assms(1)
    by (simp add: significand_loop_float32_BE [OF assms(1,2)] float32_exponent_word [OF assms(2-5)]
        exponent_loop_2_BE [OF _ E(1)] js_update_in js_nth_def hi sign_or [OF E2 assms(6)] Let_def
        del: of_int_add of_int_mult)
  then show ?thesis
    unfolding chain4_BE [OF assms(1)] float32_bytes_def Let_def by simp
qed

lemma floatPartsToByteArray_float32_LE:
  assumes "off + 4 \<le> length bytes" "0 \<le> m" "m < 2 ^ 23" "0 \<le> e" "e < 256" "s = 0 \<or> s = 1"
  shows "floatPartsToByteArray float32 bytes off s e m True = overwrite bytes off (map Some (rev (float32_bytes s e \<lfloor>m\<rfloor>)))"
proof -
  let ?E = "e * 128 + \<lfloor>m\<rfloor> div 65536"
  have E: "0 \<le> ?E" "?E < 32768"
    using float32_top [OF assms(2,3)] assms(4,5) by simp_all
  have E2: "0 \<le> ?E div 256" "?E div 256 < 128" using E by simp_all
  have hi: "?E div 256 mod 256 = ?E div 256" using E2 by simp
  have "floatPartsToByteArray float32 bytes off s e m True =
     bytes[off := Some (\<lfloor>m\<rfloor> mod 256), off + 1 := Some (\<lfloor>m\<rfloor> div 256 mod 256),
           off + 2 := Some (?E mod 256), off + 3 := Some (?E div 256 + s * 128)]"
    unfolding floatPartsToByteArray_def float32_fields
    using assms(1)
    by (simp add: significand_loop_float32_LE [OF assms(1,2)] float32_exponent_word [OF assms(2-5)]
        exponent_loop_2_LE32 [OF _ E(1)] js_update_in js_nth_def hi sign_or [OF E2 assms(6)] nat_add_distrib Let_def
        add.commute [of "3::nat" off]
        del: of_int_add of_int_mult)
  then show ?thesis
    unfolding chain4_LE [OF assms(1)] float32_bytes_def Let_def by simp
qed

lemma be_bytes_6:
  "be_bytes 6 M = [M div 1099511627776 mod 256, M div 4294967296 mod 256, M div 16777216 mod 256,
                   M div 65536 mod 256, M div 256 mod 256, M mod 256]"
  by (simp add: be_bytes_numeral div_div_numeral)

lemma float64_bytes_be:
  assumes "0 \<le> M" "M < 2 ^ 52" "0 \<le> e" "e < 2048" "s = 0 \<or> s = 1"
  shows "float64_bytes s e M = be_bytes 8 (float_word float64 s e M)"
proof -
  define W where "W = float_word float64 s e M"
  define E where "E = e * 16 + M div 281474976710656"
  have top: "0 \<le> M div 281474976710656" "M div 281474976710656 < 16"
  proof -
    show "0 \<le> M div 281474976710656" using assms(1) by (simp add: pos_imp_zdiv_nonneg_iff)
    have "M div 281474976710656 \<le> 4503599627370495 div 281474976710656"
      by (rule zdiv_mono1) (use assms(2) in simp_all)
    then show "M div 281474976710656 < 16" by simp
  qed
  have E: "0 \<le> E" "E < 32768" using top assms(3,4) by (simp_all add: E_def)
  have W: "W = (s * 32768 + e * 16) * 256 ^ 6 + M"
    by (simp add: W_def float_word_def float64_fields algebra_simps)
  have low: "be_bytes 6 W = be_bytes 6 M" unfolding W by (rule be_bytes_high)
  have "W div 256 ^ 6 = s * 32768 + e * 16 + M div 256 ^ 6"
    unfolding W by (rule div_split) simp
  then have hi: "W div 256 ^ 6 = (s * 128) * 256 + E" by (simp add: E_def)
  have E2: "0 \<le> E div 256" "E div 256 < 128" using E by simp_all
  have 1: "((s * 128) * 256 + E) div 256 = s * 128 + E div 256" by (rule div_split) simp
  have 2: "(s * 128 + E div 256) mod 256 = s * 128 + E div 256"
    using E2 assms(5) by auto
  have 3: "((s * 128) * 256 + E) mod 256 = E mod 256" by (rule mod_split)
  have top2: "be_bytes 2 (W div 256 ^ 6) = [E div 256 + s * 128, E mod 256]"
    unfolding hi be_bytes_2 1 2 3 by (simp add: add.commute)
  have "be_bytes (6 + 2) W = be_bytes 2 (W div 256 ^ 6) @ be_bytes 6 W"
    by (rule be_bytes_append)
  also have "\<dots> = [E div 256 + s * 128, E mod 256] @ be_bytes 6 M"
    by (simp only: top2 low)
  also have "\<dots> = float64_bytes s e M"
    by (simp add: be_bytes_6 float64_bytes_def Let_def E_def)
  finally show ?thesis by (simp add: W_def)
qed

lemma float32_bytes_be:
  assumes "0 \<le> M" "M < 2 ^ 23" "0 \<le> e" "e < 256" "s = 0 \<or> s = 1"
  shows "float32_bytes s e M = be_bytes 4 (float_word float32 s e M)"
proof -
  define W where "W = float_word float32 s e M"
  define E where "E = e * 128 + M div 65536"
  have top: "0 \<le> M div 65536" "M div 65536 < 128"
  proof -
    show "0 \<le> M div 65536" using assms(1) by (simp add: pos_imp_zdiv_nonneg_iff)
    have "M div 65536 \<le> 8388607 div 65536"
      by (rule zdiv_mono1) (use assms(2) in simp_all)
    then show "M div 65536 < 128" by simp
  qed
  have E: "0 \<le> E" "E < 32768" using top assms(3,4) by (simp_all add: E_def)
  have W: "W = (s * 32768 + e * 128) * 256 ^ 2 + M"
    by (simp add: W_def float_word_def float32_fields algebra_simps)
  have low: "be_bytes 2 W = be_bytes 2 M" unfolding W by (rule be_bytes_high)
  have "W div 256 ^ 2 = s * 32768 + e * 128 + M div 256 ^ 2"
    unfolding W by (rule div_split) simp
  then have hi: "W div 256 ^ 2 = (s * 128) * 256 + E" by (simp add: E_def)
  have E2: "0 \<le> E div 256" "E div 256 < 128" using E by simp_all
  have 1: "((s * 128) * 256 + E) div 256 = s * 128 + E div 256" by (rule div_split) simp
  have 2: "(s * 128 + E div 256) mod 256 = s * 128 + E div 256"
    using E2 assms(5) by auto
  have 3: "((s * 128) * 256 + E) mod 256 = E mod 256" by (rule mod_split)
  have top2: "be_bytes 2 (W div 256 ^ 2) = [E div 256 + s * 128, E mod 256]"
    unfolding hi be_bytes_2 1 2 3 by (simp add: add.commute)
  have "be_bytes (2 + 2) W = be_bytes 2 (W div 256 ^ 2) @ be_bytes 2 W"
    by (rule be_bytes_append)
  also have "\<dots> = [E div 256 + s * 128, E mod 256] @ be_bytes 2 M"
    by (simp only: top2 low)
  also have "\<dots> = float32_bytes s e M"
    by (simp add: be_bytes_2 float32_bytes_def Let_def E_def)
  finally show ?thesis by (simp add: W_def)
qed

lemma byte_order_map: "map f (byte_order le bs) = byte_order le (map f bs)"
  by (simp add: byte_order_def rev_map)

lemma floatPartsToByteArray_bytes:
  assumes "P = float32 \<or> P = float64" "off + fp_byteLength P \<le> length bytes"
    "0 \<le> m" "m < 2 ^ numSignificandBits P" "0 \<le> e" "e < 2 ^ numExponentBits P" "s = 0 \<or> s = 1"
  shows "floatPartsToByteArray P bytes off s e m le =
         overwrite bytes off (map Some (byte_order le (be_bytes (fp_byteLength P) (float_word P s e \<lfloor>m\<rfloor>))))"
proof -
  have M: "0 \<le> \<lfloor>m\<rfloor>" using assms(3) by simp
  from assms(1) show ?thesis
  proof
    assume P: "P = float32"
    have a: "off + 4 \<le> length bytes" "m < 2 ^ 23" "e < 256"
      using assms(2,4,6) by (simp_all add: P float32_fields)
    have M2: "\<lfloor>m\<rfloor> < 2 ^ 23" using a(2) by (simp add: floor_less_iff)
    note b = float32_bytes_be [OF M M2 assms(5) a(3) assms(7)]
    show ?thesis
      using floatPartsToByteArray_float32_BE [OF a(1) assms(3) a(2) assms(5) a(3) assms(7)]
        floatPartsToByteArray_float32_LE [OF a(1) assms(3) a(2) assms(5) a(3) assms(7)]
      by (cases le) (simp_all add: P float32_fields b byte_order_def)
  next
    assume P: "P = float64"
    have a: "off + 8 \<le> length bytes" "m < 2 ^ 52" "e < 2048"
      using assms(2,4,6) by (simp_all add: P float64_fields)
    have M2: "\<lfloor>m\<rfloor> < 2 ^ 52" using a(2) by (simp add: floor_less_iff)
    note b = float64_bytes_be [OF M M2 assms(5) a(3) assms(7)]
    show ?thesis
      using floatPartsToByteArray_float64_BE [OF a(1) assms(3) a(2) assms(5) a(3) assms(7)]
        floatPartsToByteArray_float64_LE [OF a(1) assms(3) a(2) assms(5) a(3) assms(7)]
      by (cases le) (simp_all add: P float64_fields b byte_order_def)
  qed
qed

lemma FloatPolyfill_get_bytes:
  assumes "P = float32 \<or> P = float64" "length bs = fp_byteLength P" "is_bytes bs"
  shows "FloatPolyfill_get P (pre @ map Some (byte_order le bs) @ post) (length pre) le
         = float_decode P (be_value bs)"
proof -
  from assms(1) show ?thesis
  proof
    assume P: "P = float32"
    obtain b0 b1 b2 b3 where bs: "bs = [b0, b1, b2, b3]"
      using length4 [of bs] assms(2) by (auto simp: P float32_fields)
    show ?thesis
      using FloatPolyfill_get_float32_BE [of b0 b1 b2 b3 pre post]
        FloatPolyfill_get_float32_LE [of b0 b1 b2 b3 pre post] assms(3)
      by (cases le) (simp_all add: P bs byte_order_def)
  next
    assume P: "P = float64"
    obtain b0 b1 b2 b3 b4 b5 b6 b7 where bs: "bs = [b0, b1, b2, b3, b4, b5, b6, b7]"
      using length8 [of bs] assms(2) by (auto simp: P float64_fields)
    show ?thesis
      using FloatPolyfill_get_float64_BE [of b0 b1 b2 b3 b4 b5 b6 b7 pre post]
        FloatPolyfill_get_float64_LE [of b0 b1 b2 b3 b4 b5 b6 b7 pre post] assms(3)
      by (cases le) (simp_all add: P bs byte_order_def)
  qed
qed

lemma overwrite_split:
  "off + length bs \<le> length bytes \<Longrightarrow>
   overwrite bytes off bs = take off bytes @ bs @ drop (off + length bs) bytes \<and> length (take off bytes) = off"
  by (simp add: overwrite_def)

lemma FloatPolyfill_get_overwrite:
  assumes "P = float32 \<or> P = float64" "length bs = fp_byteLength P" "is_bytes bs"
    "off + fp_byteLength P \<le> length bytes"
  shows "FloatPolyfill_get P (overwrite bytes off (map Some (byte_order le bs))) off le
         = float_decode P (be_value bs)"
proof -
  have l: "length (map Some (byte_order le bs)) = fp_byteLength P"
    using assms(2) by (simp add: byte_order_def)
  have o: "overwrite bytes off (map Some (byte_order le bs)) =
        take off bytes @ map Some (byte_order le bs) @ drop (off + fp_byteLength P) bytes"
    using assms(2) by (simp add: overwrite_def byte_order_def)
  have t: "length (take off bytes) = off" using assms(4) by simp
  show ?thesis
    unfolding o using FloatPolyfill_get_bytes [OF assms(1-3), of "take off bytes" le] t by simp
qed

lemma be_value_snoc: "be_value (xs @ [b]) = be_value xs * 256 + b"
  by (simp add: be_value_def)

lemma be_value_be_bytes: "be_value (be_bytes n W) = W mod 256 ^ n"
proof (induction n arbitrary: W)
  case 0
  show ?case by (simp add: be_value_def)
next
  case (Suc n)
  have "W mod (256 * 256 ^ n) = 256 * (W div 256 mod 256 ^ n) + W mod 256"
    by (rule zmod_zmult2_eq) simp
  then show ?case by (simp add: be_value_snoc Suc)
qed

lemma is_bytes_be_bytes: "is_bytes (be_bytes n W)"
  by (induction n arbitrary: W) (auto simp: is_bytes_def)

lemma float_word_fields:
  assumes "0 \<le> M" "M < 2 ^ numSignificandBits P" "0 \<le> e" "e < 2 ^ numExponentBits P"
  shows "sign_bit P (float_word P s e M) = s"
    and "exponent_bits P (float_word P s e M) = e"
    and "significand_bits P (float_word P s e M) = M"
proof -
  let ?K = "(2::int) ^ numSignificandBits P" and ?E = "(2::int) ^ numExponentBits P"
  have d: "float_word P s e M div ?K = s * ?E + e"
    using assms(1,2) by (simp add: float_word_def div_pos_pos_trivial)
  show "significand_bits P (float_word P s e M) = M"
    using assms(1,2) by (simp add: significand_bits_def float_word_def mod_pos_pos_trivial)
  show "exponent_bits P (float_word P s e M) = e"
    using assms(3,4) by (simp add: exponent_bits_def d mod_pos_pos_trivial)
  have "float_word P s e M div (?K * ?E) = float_word P s e M div ?K div ?E"
    by (rule zdiv_zmult2_eq) simp
  then show "sign_bit P (float_word P s e M) = s"
    using assms(3,4) by (simp add: sign_bit_def d power_add mult.commute div_pos_pos_trivial)
qed

lemma float_word_bound:
  assumes "P = float32 \<or> P = float64" "0 \<le> M" "M < 2 ^ numSignificandBits P"
    "0 \<le> e" "e < 2 ^ numExponentBits P" "s = 0 \<or> s = 1"
  shows "0 \<le> float_word P s e M" "float_word P s e M < 256 ^ fp_byteLength P"
proof -
  show "0 \<le> float_word P s e M" using assms(2,4,6) by (auto simp: float_word_def)
  from assms(1) show "float_word P s e M < 256 ^ fp_byteLength P"
  proof
    assume P: "P = float32"
    show ?thesis using assms(3,5,6) by (auto simp: float_word_def P float32_fields)
  next
    assume P: "P = float64"
    show ?thesis using assms(3,5,6) by (auto simp: float_word_def P float64_fields)
  qed
qed

lemma FloatPolyfill_get_floatParts:
  assumes "P = float32 \<or> P = float64" "off + fp_byteLength P \<le> length bytes"
    "0 \<le> m" "m < 2 ^ numSignificandBits P" "0 \<le> e" "e < 2 ^ numExponentBits P" "s = 0 \<or> s = 1"
  shows "FloatPolyfill_get P (floatPartsToByteArray P bytes off s e m le) off le
         = FloatPolyfill_value P s e (Some \<lfloor>m\<rfloor>)"
proof -
  have M: "0 \<le> \<lfloor>m\<rfloor>" "\<lfloor>m\<rfloor> < 2 ^ numSignificandBits P"
    using assms(3,4) by (simp_all add: floor_less_iff)
  note b = float_word_bound [OF assms(1) M assms(5-7)]
  have v: "be_value (be_bytes (fp_byteLength P) (float_word P s e \<lfloor>m\<rfloor>)) = float_word P s e \<lfloor>m\<rfloor>"
    using b by (simp add: be_value_be_bytes mod_pos_pos_trivial)
  show ?thesis
    unfolding floatPartsToByteArray_bytes [OF assms]
    using FloatPolyfill_get_overwrite [OF assms(1) _ is_bytes_be_bytes assms(2),
        of "fp_byteLength P" "float_word P s e \<lfloor>m\<rfloor>" le]
    by (simp add: v float_decode_def float_word_fields [OF M assms(5,6)])
qed

lemma FloatPolyfill_parts_special:
  "FloatPolyfill_parts P NaN = (0, exponentMax P, 2 ^ (numSignificandBits P - 1))"
  "FloatPolyfill_parts P PosInfinity = (0, exponentMax P, 0)"
  "FloatPolyfill_parts P NegInfinity = (1, exponentMax P, 0)"
  "FloatPolyfill_parts P (Fin 0) = (0, 0, 0)"
  "FloatPolyfill_parts P NegZero = (1, 0, 0)"
  by (simp_all add: FloatPolyfill_parts_def isNaN_def)

lemma float_format_bounds:
  assumes "P = float32 \<or> P = float64"
  shows "0 < exponentMax P" "exponentMax P < 2 ^ numExponentBits P"
    "(2::real) ^ (numSignificandBits P - 1) < 2 ^ numSignificandBits P"
    "\<lfloor>(2::real) ^ (numSignificandBits P - 1)\<rfloor> = 2 ^ (numSignificandBits P - 1)"
    "(0::int) < 2 ^ (numSignificandBits P - 1)"
    "(2::int) ^ (numSignificandBits P - 1) < 2 ^ numSignificandBits P"
  using assms by (auto simp: float32_fields float64_fields)

lemma FloatPolyfill_set_special:
  assumes "P = float32 \<or> P = float64" "off + fp_byteLength P \<le> length bytes"
  shows "FloatPolyfill_set P bytes off NaN le = overwrite bytes off (map Some (byte_order le
           (be_bytes (fp_byteLength P) (float_word P 0 (exponentMax P) (2 ^ (numSignificandBits P - 1))))))"
    and "FloatPolyfill_set P bytes off PosInfinity le = overwrite bytes off (map Some (byte_order le
           (be_bytes (fp_byteLength P) (float_word P 0 (exponentMax P) 0))))"
    and "FloatPolyfill_set P bytes off NegInfinity le = overwrite bytes off (map Some (byte_order le
           (be_bytes (fp_byteLength P) (float_word P 1 (exponentMax P) 0))))"
    and "FloatPolyfill_set P bytes off (Fin 0) le = overwrite bytes off (map Some (byte_order le
           (be_bytes (fp_byteLength P) (float_word P 0 0 0))))"
    and "FloatPolyfill_set P bytes off NegZero le = overwrite bytes off (map Some (byte_order le
           (be_bytes (fp_byteLength P) (float_word P 1 0 0))))"
proof -
  note b = float_format_bounds [OF assms(1)]
  have e: "0 \<le> exponentMax P" using b(1) by simp
  show "FloatPolyfill_set P bytes off NaN le = overwrite bytes off (map Some (byte_order le
           (be_bytes (fp_byteLength P) (float_word P 0 (exponentMax P) (2 ^ (numSignificandBits P - 1))))))"
    using floatPartsToByteArray_bytes [OF assms, of "2 ^ (numSignificandBits P - 1)" "exponentMax P" 0 le]
      b e
    by (simp add: FloatPolyfill_set_def FloatPolyfill_parts_special)
  show "FloatPolyfill_set P bytes off PosInfinity le = overwrite bytes off (map Some (byte_order le
           (be_bytes (fp_byteLength P) (float_word P 0 (exponentMax P) 0))))"
    using floatPartsToByteArray_bytes [OF assms, of 0 "exponentMax P" 0 le] b e
    by (simp add: FloatPolyfill_set_def FloatPolyfill_parts_special)
  show "FloatPolyfill_set P bytes off NegInfinity le = overwrite bytes off (map Some (byte_order le
           (be_bytes (fp_byteLength P) (float_word P 1 (exponentMax P) 0))))"
    using floatPartsToByteArray_bytes [OF assms, of 0 "exponentMax P" 1 le] b e
    by (simp add: FloatPolyfill_set_def FloatPolyfill_parts_special)
  show "FloatPolyfill_set P bytes off (Fin 0) le = overwrite bytes off (map Some (byte_order le
           (be_bytes (fp_byteLength P) (float_word P 0 0 0))))"
    using floatPartsToByteArray_bytes [OF assms, of 0 0 0 le]
    by (simp add: FloatPolyfill_set_def FloatPolyfill_parts_special)
  show "FloatPolyfill_set P bytes off NegZero le = overwrite bytes off (map Some (byte_order le
           (be_bytes (fp_byteLength P) (float_word P 1 0 0))))"
    using floatPartsToByteArray_bytes [OF assms, of 0 0 1 le]
    by (simp add: FloatPolyfill_set_def FloatPolyfill_parts_special)
qed

lemma FloatPolyfill_get_set_special:
  assumes "P = float32 \<or> P = float64" "off + fp_byteLength P \<le> length bytes"
  shows "FloatPolyfill_get P (FloatPolyfill_set P bytes off NaN le) off le = NaN"
    and "FloatPolyfill_get P (FloatPolyfill_set P bytes off PosInfinity le) off le = PosInfinity"
    and "FloatPolyfill_get P (FloatPolyfill_set P bytes off NegInfinity le) off le = NegInfinity"
    and "FloatPolyfill_get P (FloatPolyfill_set P bytes off (Fin 0) le) off le = Fin 0"
    and "FloatPolyfill_get P (FloatPolyfill_set P bytes off NegZero le) off le = NegZero"
proof -
  note b = float_format_bounds [OF assms(1)]
  have e: "0 \<le> exponentMax P" using b(1) by simp
  show "FloatPolyfill_get P (FloatPolyfill_set P bytes off NaN le) off le = NaN"
    using FloatPolyfill_get_floatParts [OF assms, of "2 ^ (numSignificandBits P - 1)" "exponentMax P" 0 le]
      b e
    by (simp add: FloatPolyfill_set_def FloatPolyfill_parts_special FloatPolyfill_value_def)
  show "FloatPolyfill_get P (FloatPolyfill_set P bytes off PosInfinity le) off le = PosInfinity"
    using FloatPolyfill_get_floatParts [OF assms, of 0 "exponentMax P" 0 le] b e
    by (simp add: FloatPolyfill_set_def FloatPolyfill_parts_special FloatPolyfill_value_def)
  show "FloatPolyfill_get P (FloatPolyfill_set P bytes off NegInfinity le) off le = NegInfinity"
    using FloatPolyfill_get_floatParts [OF assms, of 0 "exponentMax P" 1 le] b e
    by (simp add: FloatPolyfill_set_def FloatPolyfill_parts_special FloatPolyfill_value_def)
  show "FloatPolyfill_get P (FloatPolyfill_set P bytes off (Fin 0) le) off le = Fin 0"
    using FloatPolyfill_get_floatParts [OF assms, of 0 0 0 le]
    by (simp add: FloatPolyfill_set_def FloatPolyfill_parts_special FloatPolyfill_value_def)
  show "FloatPolyfill_get P (FloatPolyfill_set P bytes off NegZero le) off le = NegZero"
    using FloatPolyfill_get_floatParts [OF assms, of 0 0 1 le]
    by (simp add: FloatPolyfill_set_def FloatPolyfill_parts_special FloatPolyfill_value_def)
qed

lemma FloatPolyfill_get_NaN:
  assumes "P = float32 \<or> P = float64" "off + fp_byteLength P \<le> length bytes"
    "length bs = fp_byteLength P" "is_bytes bs"
    "exponent_bits P (be_value bs) = exponentMax P" "significand_bits P (be_value bs) \<noteq> 0"
  shows "FloatPolyfill_get P (overwrite bytes off (map Some (byte_order le bs))) off le = NaN"
  using FloatPolyfill_get_overwrite [OF assms(1,3,4,2), of le] assms(5,6)
    float_format_bounds(1) [OF assms(1)]
  by (simp add: float_decode_def FloatPolyfill_value_def)

lemma FloatPolyfill_get_reversed:
  assumes "P = float32 \<or> P = float64" "off + fp_byteLength P \<le> length bytes"
    "length bs = fp_byteLength P" "is_bytes bs"
  shows "FloatPolyfill_get P (overwrite bytes off (map Some (rev bs))) off True
         = FloatPolyfill_get P (overwrite bytes off (map Some bs)) off False"
  using FloatPolyfill_get_overwrite [OF assms(1,3,4,2), of True]
    FloatPolyfill_get_overwrite [OF assms(1,3,4,2), of False]
  by (simp add: byte_order_def)


lemma pow2_numeral: "pow2 (numeral k) = 2 ^ numeral k"
  by (simp add: pow2_def)

lemma pow2_neg_numeral: "pow2 (- numeral k) = 1 / 2 ^ numeral k"
  by (simp add: pow2_def power_int_minus field_simps)

lemma pow2_0: "pow2 0 = 1"
  by (simp add: pow2_def)



lemma log_carry: "floor_log2 340282361850336062550457001444955389952 = 127"
  by (rule floor_log2_eq) (simp_all add: pow2_numeral)

lemma round_carry:
  "snd (snd (FloatPolyfill_round float32 340282361850336062550457001444955389952)) = 255"
  by (simp add: FloatPolyfill_round_def log_carry Let_def float32_fields pow2_neg_numeral pow2_numeral)

lemma inf32: "overwrite (replicate 4 None) 0 (map Some (byte_order False (be_bytes 4 (float_word float32 0 (exponentMax float32) 0))))
   = [Some 127, Some 128, Some 0, Some 0]"
  by (simp add: overwrite_def byte_order_def float_word_def float32_fields be_bytes_4)

lemma be_bytes_8:
  "be_bytes 8 v = [v div 72057594037927936 mod 256, v div 281474976710656 mod 256,
     v div 1099511627776 mod 256, v div 4294967296 mod 256, v div 16777216 mod 256,
     v div 65536 mod 256, v div 256 mod 256, v mod 256]"
  by (simp add: be_bytes_numeral div_div_numeral)

lemma inf64: "overwrite (replicate 8 None) 0 (map Some (byte_order False (be_bytes 8 (float_word float64 0 (exponentMax float64) 0))))
   = map Some [127, 240, 0, 0, 0, 0, 0, 0]"
  by (simp add: overwrite_def byte_order_def float_word_def float64_fields be_bytes_8)

text \<open>
  C2. For \<open>float32\<close> and \<open>float64\<close>, at every offset of a byte array with room for
  the value and in both byte orders: \<open>FloatPolyfill.set\<close> writes NaN as the word with
  sign 0, all exponent bits set and only the top significand bit set; \<open>Infinity\<close> and
  \<open>-Infinity\<close> as the words with all exponent bits set, significand 0 and sign 0
  and 1; \<open>0\<close> and \<open>-0\<close> as the words with exponent and significand 0 and sign 0 and 1;
  \<open>FloatPolyfill.get\<close> reads each of the five values back; it reads NaN from every
  byte pattern whose exponent field is all ones and whose significand field is not 0,
  whatever the sign bit and the other significand bits; and with the little-endian flag
  it reads from the reversed bytes the value that it reads big-endian from the bytes.
\<close>

theorem FloatPolyfill_special_values:
  assumes "P = float32 \<or> P = float64" "off + fp_byteLength P \<le> length bytes"
  shows "exponentMax P = 2 ^ numExponentBits P - 1
     \<and> FloatPolyfill_set P bytes off NaN le = overwrite bytes off (map Some (byte_order le
           (be_bytes (fp_byteLength P) (float_word P 0 (exponentMax P) (2 ^ (numSignificandBits P - 1))))))
     \<and> FloatPolyfill_set P bytes off PosInfinity le = overwrite bytes off (map Some (byte_order le
           (be_bytes (fp_byteLength P) (float_word P 0 (exponentMax P) 0))))
     \<and> FloatPolyfill_set P bytes off NegInfinity le = overwrite bytes off (map Some (byte_order le
           (be_bytes (fp_byteLength P) (float_word P 1 (exponentMax P) 0))))
     \<and> FloatPolyfill_set P bytes off (Fin 0) le = overwrite bytes off (map Some (byte_order le
           (be_bytes (fp_byteLength P) (float_word P 0 0 0))))
     \<and> FloatPolyfill_set P bytes off NegZero le = overwrite bytes off (map Some (byte_order le
           (be_bytes (fp_byteLength P) (float_word P 1 0 0))))
     \<and> FloatPolyfill_get P (FloatPolyfill_set P bytes off NaN le) off le = NaN
     \<and> FloatPolyfill_get P (FloatPolyfill_set P bytes off PosInfinity le) off le = PosInfinity
     \<and> FloatPolyfill_get P (FloatPolyfill_set P bytes off NegInfinity le) off le = NegInfinity
     \<and> FloatPolyfill_get P (FloatPolyfill_set P bytes off (Fin 0) le) off le = Fin 0
     \<and> FloatPolyfill_get P (FloatPolyfill_set P bytes off NegZero le) off le = NegZero
     \<and> (\<forall>bs. length bs = fp_byteLength P \<and> is_bytes bs \<and>
              exponent_bits P (be_value bs) = exponentMax P \<and> significand_bits P (be_value bs) \<noteq> 0 \<longrightarrow>
              FloatPolyfill_get P (overwrite bytes off (map Some (byte_order le bs))) off le = NaN)
     \<and> (\<forall>bs. length bs = fp_byteLength P \<and> is_bytes bs \<longrightarrow>
              FloatPolyfill_get P (overwrite bytes off (map Some (rev bs))) off True
                = FloatPolyfill_get P (overwrite bytes off (map Some bs)) off False)"
proof -
  have e: "exponentMax P = 2 ^ numExponentBits P - 1"
    using assms(1) by (auto simp: float32_fields float64_fields)
  note s = FloatPolyfill_set_special [OF assms, of le]
  note g = FloatPolyfill_get_set_special [OF assms, of le]
  have n: "\<forall>bs. length bs = fp_byteLength P \<and> is_bytes bs \<and>
              exponent_bits P (be_value bs) = exponentMax P \<and> significand_bits P (be_value bs) \<noteq> 0 \<longrightarrow>
              FloatPolyfill_get P (overwrite bytes off (map Some (byte_order le bs))) off le = NaN"
    using FloatPolyfill_get_NaN [OF assms] by blast
  have rv: "\<forall>bs. length bs = fp_byteLength P \<and> is_bytes bs \<longrightarrow>
              FloatPolyfill_get P (overwrite bytes off (map Some (rev bs))) off True
                = FloatPolyfill_get P (overwrite bytes off (map Some bs)) off False"
    using FloatPolyfill_get_reversed [OF assms] by blast
  show ?thesis
    by (intro conjI e s g n rv)
qed

lemma nan32: "overwrite (replicate 4 None) 0 (map Some (byte_order False
    (be_bytes (fp_byteLength float32) (float_word float32 0 (exponentMax float32) (2 ^ (numSignificandBits float32 - 1))))))
   = map Some [127, 192, 0, 0]"
  by (simp add: overwrite_def byte_order_def float_word_def float32_fields be_bytes_4)

lemma nan64: "overwrite (replicate 8 None) 0 (map Some (byte_order False
    (be_bytes (fp_byteLength float64) (float_word float64 0 (exponentMax float64) (2 ^ (numSignificandBits float64 - 1))))))
   = map Some [127, 248, 0, 0, 0, 0, 0, 0]"
  by (simp add: overwrite_def byte_order_def float_word_def float64_fields be_bytes_8)

lemma inf64_LE: "overwrite (replicate 8 None) 0 (map Some (byte_order True (be_bytes (fp_byteLength float64) (float_word float64 0 (exponentMax float64) 0))))
   = map Some [0, 0, 0, 0, 0, 0, 240, 127]"
  by (simp add: overwrite_def byte_order_def float_word_def float64_fields be_bytes_8)

lemma negzero64: "overwrite (replicate 8 None) 0 (map Some (byte_order False (be_bytes (fp_byteLength float64) (float_word float64 1 0 0))))
   = map Some [128, 0, 0, 0, 0, 0, 0, 0]"
  by (simp add: overwrite_def byte_order_def float_word_def float64_fields be_bytes_8)

lemma payload64:
  "length [255, 240, 0, 0, 0, 0, 0, 1::int] = fp_byteLength float64"
  "is_bytes [255, 240, 0, 0, 0, 0, 0, 1]"
  "exponent_bits float64 (be_value [255, 240, 0, 0, 0, 0, 0, 1]) = exponentMax float64"
  "significand_bits float64 (be_value [255, 240, 0, 0, 0, 0, 0, 1]) \<noteq> 0"
  "overwrite (replicate 8 None) 0 (map Some (byte_order False [255, 240, 0, 0, 0, 0, 0, 1::int]))
     = map Some [255, 240, 0, 0, 0, 0, 0, 1]"
  by (simp_all add: float64_fields is_bytes_def exponent_bits_def significand_bits_def be_value_def
      overwrite_def byte_order_def)

lemma inf64': "overwrite (replicate 8 None) 0 (map Some (byte_order False (be_bytes (fp_byteLength float64) (float_word float64 0 (exponentMax float64) 0))))
   = map Some [127, 240, 0, 0, 0, 0, 0, 0]"
  by (simp add: overwrite_def byte_order_def float_word_def float64_fields be_bytes_8)

text \<open>
  The theorem at \<open>float64\<close> and \<open>float32\<close> over an empty array of 8 and of 4 bytes:
  the byte patterns of the specification, and their decoding.
\<close>

theorem FloatPolyfill_special_values_witness:
  "FloatPolyfill_set float64 (replicate 8 None) 0 PosInfinity False = map Some [127, 240, 0, 0, 0, 0, 0, 0]
   \<and> FloatPolyfill_set float64 (replicate 8 None) 0 NegZero False = map Some [128, 0, 0, 0, 0, 0, 0, 0]
   \<and> FloatPolyfill_set float64 (replicate 8 None) 0 NaN False = map Some [127, 248, 0, 0, 0, 0, 0, 0]
   \<and> FloatPolyfill_set float64 (replicate 8 None) 0 PosInfinity True = map Some [0, 0, 0, 0, 0, 0, 240, 127]
   \<and> FloatPolyfill_set float32 (replicate 4 None) 0 NaN False = map Some [127, 192, 0, 0]
   \<and> FloatPolyfill_get float64 (map Some [127, 240, 0, 0, 0, 0, 0, 0]) 0 False = PosInfinity
   \<and> FloatPolyfill_get float64 (map Some [0, 0, 0, 0, 0, 0, 240, 127]) 0 True = PosInfinity
   \<and> FloatPolyfill_get float64 (map Some [128, 0, 0, 0, 0, 0, 0, 0]) 0 False = NegZero
   \<and> FloatPolyfill_get float64 (map Some [127, 248, 0, 0, 0, 0, 0, 0]) 0 False = NaN
   \<and> FloatPolyfill_get float64 (map Some [255, 240, 0, 0, 0, 0, 0, 1]) 0 False = NaN"
proof -
  have p: "float64 = float32 \<or> float64 = float64" "float32 = float32 \<or> float32 = float64" by simp_all
  have r: "0 + fp_byteLength float64 \<le> length (replicate 8 (None :: int option))"
    "0 + fp_byteLength float32 \<le> length (replicate 4 (None :: int option))"
    by (simp_all add: float64_fields float32_fields)
  note be = FloatPolyfill_special_values [OF p(1) r(1), of False]
  note le = FloatPolyfill_special_values [OF p(1) r(1), of True]
  note f32 = FloatPolyfill_special_values [OF p(2) r(2), of False]
  have 1: "FloatPolyfill_set float64 (replicate 8 None) 0 PosInfinity False = map Some [127, 240, 0, 0, 0, 0, 0, 0]"
    using be inf64' by metis
  have 2: "FloatPolyfill_set float64 (replicate 8 None) 0 NegZero False = map Some [128, 0, 0, 0, 0, 0, 0, 0]"
    using be negzero64 by metis
  have 3: "FloatPolyfill_set float64 (replicate 8 None) 0 NaN False = map Some [127, 248, 0, 0, 0, 0, 0, 0]"
    using be nan64 by metis
  have 4: "FloatPolyfill_set float64 (replicate 8 None) 0 PosInfinity True = map Some [0, 0, 0, 0, 0, 0, 240, 127]"
    using le inf64_LE by metis
  have 5: "FloatPolyfill_set float32 (replicate 4 None) 0 NaN False = map Some [127, 192, 0, 0]"
    using f32 nan32 by metis
  have 6: "FloatPolyfill_get float64 (map Some [127, 240, 0, 0, 0, 0, 0, 0]) 0 False = PosInfinity"
    using be 1 by metis
  have 7: "FloatPolyfill_get float64 (map Some [0, 0, 0, 0, 0, 0, 240, 127]) 0 True = PosInfinity"
    using le 4 by metis
  have 8: "FloatPolyfill_get float64 (map Some [128, 0, 0, 0, 0, 0, 0, 0]) 0 False = NegZero"
    using be 2 by metis
  have 9: "FloatPolyfill_get float64 (map Some [127, 248, 0, 0, 0, 0, 0, 0]) 0 False = NaN"
    using be 3 by metis
  have 10: "FloatPolyfill_get float64 (map Some [255, 240, 0, 0, 0, 0, 0, 1]) 0 False = NaN"
    using be payload64 by metis
  show ?thesis using 1 2 3 4 5 6 7 8 9 10 by blast
qed







end
